theory Spec2Isabelle
  imports Complex_Main
begin

section \<open>Center-balanced caption lines: the embedding\<close>

text \<open>
  The repository holds several copies of the same captioning code (canvas backend and
  gd backend).  The two passes of the line balancer, \<open>calcAvgLineWidth\<close> and
  \<open>createBalancedLines\<close>, are the same in every copy up to the names of local
  variables.  JavaScript numbers are modelled as exact reals here; the two passes
  with every operation rounded to an IEEE double follow in a section of their own.
\<close>

subsection \<open>Strings: join and split\<close>

text \<open>\<open>Array.prototype.join(" ")\<close>: the empty array gives the empty string.\<close>

fun join_sp :: "string list \<Rightarrow> string" where
  "join_sp [] = []"
| "join_sp [x] = x"
| "join_sp (x # y # ys) = x @ '' '' @ join_sp (y # ys)"

text \<open>
  The white space matched by \<open>\s\<close>, restricted to the single-byte characters that
  \<open>char\<close> can hold: tab, line feed, vertical tab, form feed, carriage return, space.
\<close>

definition is_ws :: "char \<Rightarrow> bool" where
  "is_ws c = (c \<in> set [CHR 0x09, CHR 0x0A, CHR 0x0B, CHR 0x0C, CHR 0x0D, CHR '' ''])"

text \<open>
  \<open>caption.split(/\s+/)\<close>: the pieces between maximal runs of white space.  A
  leading or trailing run leaves an empty first or last piece, and the empty string
  splits into one empty piece.
\<close>

function split_ws :: "string \<Rightarrow> string list" where
  "split_ws s =
     (case dropWhile (\<lambda>c. \<not> is_ws c) s of
        [] \<Rightarrow> [s]
      | c # rest \<Rightarrow> takeWhile (\<lambda>c. \<not> is_ws c) s # split_ws (dropWhile is_ws rest))"
  by pat_completeness auto
termination
proof (relation "measure length")
  show "wf (measure length)" by simp
next
  fix s :: string and c rest
  assume d: "dropWhile (\<lambda>c. \<not> is_ws c) s = c # rest"
  have "length (dropWhile is_ws rest) \<le> length rest"
    by (rule length_dropWhile_le)
  moreover have "length (c # rest) \<le> length s"
    using length_dropWhile_le [of "\<lambda>c. \<not> is_ws c" s] d by simp
  ultimately show "(dropWhile is_ws rest, s) \<in> measure length" by simp
qed

declare split_ws.simps [simp del]

subsection \<open>Measured words\<close>

text \<open>A word as the callers build it: \<open>{ text: word, width: measure(word) }\<close>.\<close>

record measured_word =
  wtext :: string
  wwidth :: real

subsection \<open>Pass 1: \<open>calcAvgLineWidth\<close>\<close>

text \<open>
  The loop state is \<open>(lineWidth, totalTextWidth, linesNeeded)\<close>; one iteration of
  \<open>for (const word of words)\<close> is \<open>calcAvgLineWidth_step\<close>.
\<close>

definition calcAvgLineWidth_step ::
  "real \<Rightarrow> real \<Rightarrow> real \<times> real \<times> nat \<Rightarrow> measured_word \<Rightarrow> real \<times> real \<times> nat" where
  "calcAvgLineWidth_step spaceWidth maxTextWidth st word =
     (case st of (lineWidth, totalTextWidth, linesNeeded) \<Rightarrow>
        let wordWidth = wwidth word in
        if lineWidth \<noteq> 0 then
          if lineWidth + spaceWidth + wordWidth \<le> maxTextWidth
          then (lineWidth + (wordWidth + spaceWidth),
                totalTextWidth + (wordWidth + spaceWidth), linesNeeded)
          else (0 + wordWidth, totalTextWidth + wordWidth, linesNeeded + 1)
        else (lineWidth + wordWidth, totalTextWidth + wordWidth, linesNeeded))"

definition calcAvgLineWidth_loop ::
  "measured_word list \<Rightarrow> real \<Rightarrow> real \<Rightarrow> real \<times> real \<times> nat" where
  "calcAvgLineWidth_loop words spaceWidth maxTextWidth =
     foldl (calcAvgLineWidth_step spaceWidth maxTextWidth) (0, 0, 1) words"

definition calcAvgLineWidth :: "measured_word list \<Rightarrow> real \<Rightarrow> real \<Rightarrow> nat \<times> real" where
  "calcAvgLineWidth words spaceWidth maxTextWidth =
     (case calcAvgLineWidth_loop words spaceWidth maxTextWidth of
        (lineWidth, totalTextWidth, linesNeeded) \<Rightarrow>
          (linesNeeded, totalTextWidth / real linesNeeded))"

subsection \<open>Pass 2: \<open>createBalancedLines\<close>\<close>

record balance_state =
  lines :: "string list"
  totalTextWidth :: real
  lineWords :: "string list"
  lineWidth :: real
  cumAvgLineWidth :: real
  lastLine :: bool

text \<open>
  \<open>clear_line\<close> is the block under the comment \<open>// Clear current line:\<close>;
  \<open>push_word\<close> is the tail of the loop body, which adds \<open>addWidth\<close> to both
  accumulators and pushes the word's text.
\<close>

definition clear_line :: "nat \<Rightarrow> real \<Rightarrow> balance_state \<Rightarrow> balance_state" where
  "clear_line linesNeeded avgLineWidth st =
     st\<lparr> lines := lines st @ [join_sp (lineWords st)],
         lineWords := [],
         lineWidth := 0,
         lastLine := (length (lines st @ [join_sp (lineWords st)]) = linesNeeded),
         cumAvgLineWidth := cumAvgLineWidth st + avgLineWidth \<rparr>"

definition push_word :: "real \<Rightarrow> measured_word \<Rightarrow> balance_state \<Rightarrow> balance_state" where
  "push_word addWidth word st =
     st\<lparr> lineWidth := lineWidth st + addWidth,
         totalTextWidth := totalTextWidth st + addWidth,
         lineWords := lineWords st @ [wtext word] \<rparr>"

definition createBalancedLines_step ::
  "real \<Rightarrow> nat \<Rightarrow> real \<Rightarrow> real \<Rightarrow> balance_state \<Rightarrow> measured_word \<Rightarrow> balance_state" where
  "createBalancedLines_step spaceWidth linesNeeded avgLineWidth maxTextWidth st word =
     (let wordWidth = wwidth word in
      if lineWidth st \<noteq> 0 then
        let wordAndSpaceWidth = wordWidth + spaceWidth in
        if lineWidth st + wordAndSpaceWidth > maxTextWidth \<or>
           (\<not> lastLine st \<and> totalTextWidth st + wordAndSpaceWidth > cumAvgLineWidth st)
        then push_word wordWidth word (clear_line linesNeeded avgLineWidth st)
        else push_word wordAndSpaceWidth word st
      else push_word wordWidth word st)"

definition createBalancedLines_init :: "nat \<Rightarrow> real \<Rightarrow> balance_state" where
  "createBalancedLines_init linesNeeded avgLineWidth =
     \<lparr> lines = [], totalTextWidth = 0, lineWords = [], lineWidth = 0,
       cumAvgLineWidth = avgLineWidth, lastLine = (linesNeeded = 1) \<rparr>"

definition createBalancedLines_loop ::
  "measured_word list \<Rightarrow> real \<Rightarrow> nat \<Rightarrow> real \<Rightarrow> real \<Rightarrow> balance_state" where
  "createBalancedLines_loop words spaceWidth linesNeeded avgLineWidth maxTextWidth =
     foldl (createBalancedLines_step spaceWidth linesNeeded avgLineWidth maxTextWidth)
       (createBalancedLines_init linesNeeded avgLineWidth) words"

definition createBalancedLines ::
  "measured_word list \<Rightarrow> real \<Rightarrow> nat \<Rightarrow> real \<Rightarrow> real \<Rightarrow> string list" where
  "createBalancedLines words spaceWidth linesNeeded avgLineWidth maxTextWidth =
     (let st = createBalancedLines_loop words spaceWidth linesNeeded avgLineWidth maxTextWidth
      in if lineWords st \<noteq> [] then lines st @ [join_sp (lineWords st)] else lines st)"

text \<open>
  The two passes as every caller chains them:
  \<open>const [linesNeeded, avgLineWidth] = calcAvgLineWidth(words, spaceWidth, maxTextWidth)\<close>
  followed by \<open>createBalancedLines(words, spaceWidth, linesNeeded, avgLineWidth, maxTextWidth)\<close>.
\<close>

definition balance :: "measured_word list \<Rightarrow> real \<Rightarrow> real \<Rightarrow> string list" where
  "balance words spaceWidth maxTextWidth =
     (case calcAvgLineWidth words spaceWidth maxTextWidth of
        (linesNeeded, avgLineWidth) \<Rightarrow>
          createBalancedLines words spaceWidth linesNeeded avgLineWidth maxTextWidth)"

text \<open>
  Neither pass validates its input and no copy of the code contains a \<open>throw\<close> on
  this path, so the outcome of the two passes is always the \<open>Inr\<close> branch.
\<close>

datatype balance_error = InvalidInput | InvalidConfiguration

definition balance_outcome ::
  "measured_word list \<Rightarrow> real \<Rightarrow> real \<Rightarrow> balance_error + string list" where
  "balance_outcome words spaceWidth maxTextWidth = Inr (balance words spaceWidth maxTextWidth)"

subsection \<open>Pass 2 as the specification words it\<close>

text \<open>
  The second pass following the words of the specification, for comparison with
  \<open>createBalancedLines\<close>: the checks are made while the current line holds a word, and
  the soft constraint applies while \<open>lines closed so far < linesNeeded - 1\<close>.
\<close>

definition assignLines_step ::
  "real \<Rightarrow> nat \<Rightarrow> real \<Rightarrow> real \<Rightarrow> balance_state \<Rightarrow> measured_word \<Rightarrow> balance_state" where
  "assignLines_step spaceWidth linesNeeded avgLineWidth maxTextWidth st word =
     (let wordWidth = wwidth word in
      if lineWords st \<noteq> [] then
        let wordAndSpaceWidth = wordWidth + spaceWidth in
        if lineWidth st + wordAndSpaceWidth > maxTextWidth \<or>
           (int (length (lines st)) < int linesNeeded - 1 \<and>
            totalTextWidth st + wordAndSpaceWidth > cumAvgLineWidth st)
        then push_word wordWidth word (clear_line linesNeeded avgLineWidth st)
        else push_word wordAndSpaceWidth word st
      else push_word wordWidth word st)"

definition assignLines ::
  "measured_word list \<Rightarrow> real \<Rightarrow> nat \<Rightarrow> real \<Rightarrow> real \<Rightarrow> string list" where
  "assignLines words spaceWidth linesNeeded avgLineWidth maxTextWidth =
     (let st = foldl (assignLines_step spaceWidth linesNeeded avgLineWidth maxTextWidth)
                 (createBalancedLines_init linesNeeded avgLineWidth) words
      in if lineWords st \<noteq> [] then lines st @ [join_sp (lineWords st)] else lines st)"

subsection \<open>Lines as groups of words\<close>

text \<open>
  A line of the output is the space-joined text of a group of consecutive words.  Its
  width by the accounting of the claims is the sum of the widths of its words plus one
  space width between neighbours.
\<close>

definition line_text :: "measured_word list \<Rightarrow> string" where
  "line_text g = join_sp (map wtext g)"

definition line_width :: "real \<Rightarrow> measured_word list \<Rightarrow> real" where
  "line_width spaceWidth g = sum_list (map wwidth g) + (real (length g) - 1) * spaceWidth"

definition line_fits :: "real \<Rightarrow> real \<Rightarrow> measured_word list \<Rightarrow> bool" where
  "line_fits spaceWidth maxTextWidth g =
     (2 \<le> length g \<longrightarrow> line_width spaceWidth g \<le> maxTextWidth)"

definition positive_widths :: "real \<Rightarrow> measured_word list \<Rightarrow> bool" where
  "positive_widths spaceWidth ws = (0 \<le> spaceWidth \<and> (\<forall>w \<in> set ws. 0 < wwidth w))"

text \<open>
  The word texts that \<open>split_ws\<close> can produce: no piece holds white space, and only
  the first and the last piece may be empty.
\<close>

definition ws_free :: "string \<Rightarrow> bool" where
  "ws_free t = (\<forall>c \<in> set t. \<not> is_ws c)"

definition tokens_ok :: "string list \<Rightarrow> bool" where
  "tokens_ok ts =
     (ts \<noteq> [] \<and> (\<forall>t \<in> set ts. ws_free t) \<and> (\<forall>t \<in> set (butlast (tl ts)). t \<noteq> []))"

definition later_ok :: "string list \<Rightarrow> bool" where
  "later_ok ts =
     (ts \<noteq> [] \<and> (\<forall>t \<in> set ts. ws_free t) \<and> (\<forall>t \<in> set (butlast ts). t \<noteq> []))"

text \<open>The invariant of the loop of \<open>createBalancedLines\<close> after the words \<open>seen\<close>.\<close>

definition bal_inv :: "real \<Rightarrow> real \<Rightarrow> measured_word list \<Rightarrow> balance_state \<Rightarrow> bool" where
  "bal_inv spaceWidth maxTextWidth seen st =
     (\<exists>gs cur. concat gs @ cur = seen \<and> [] \<notin> set gs \<and>
        lines st = map line_text gs \<and> lineWords st = map wtext cur \<and>
        (lineWidth st \<noteq> 0 \<longrightarrow> cur \<noteq> []) \<and>
        (positive_widths spaceWidth seen \<longrightarrow>
           lineWidth st = (if cur = [] then 0 else line_width spaceWidth cur) \<and>
           (\<forall>g \<in> set gs. line_fits spaceWidth maxTextWidth g) \<and>
           line_fits spaceWidth maxTextWidth cur))"

subsection \<open>The invariant of pass 1\<close>

text \<open>
  Every word enters the total with its full width: the total is the sum of the widths
  plus one space width for each word that was appended to a line.
\<close>

definition counted :: "real \<Rightarrow> measured_word list \<Rightarrow> real \<times> real \<times> nat \<Rightarrow> bool" where
  "counted s seen st =
     (\<exists>k::nat. k \<le> length seen - 1 \<and> fst (snd st) = sum_list (map wwidth seen) + real k * s)"

subsection \<open>Invariants for comparing the two wordings of pass 2\<close>

text \<open>
  For words of positive width: what pass 1 has counted after the words \<open>seen\<close>, and
  what the state of pass 2 holds after them.
\<close>

definition pass1_inv :: "real \<Rightarrow> measured_word list \<Rightarrow> real \<times> real \<times> nat \<Rightarrow> bool" where
  "pass1_inv s seen st =
     (case st of (lw, tot, n) \<Rightarrow>
        if seen = [] then lw = 0 \<and> tot = 0 \<and> n = 1
        else 0 < lw \<and> 1 \<le> n \<and> n \<le> length seen \<and>
             tot = sum_list (map wwidth seen) + (real (length seen) - real n) * s)"

definition pass2_inv :: "real \<Rightarrow> nat \<Rightarrow> real \<Rightarrow> measured_word list \<Rightarrow> balance_state \<Rightarrow> bool" where
  "pass2_inv s n avg seen st =
     (cumAvgLineWidth st = (real (length (lines st)) + 1) * avg \<and>
      lastLine st = (if lines st = [] then n = 1 else length (lines st) = n) \<and>
      (if seen = [] then lineWidth st = 0 \<and> totalTextWidth st = 0 \<and> lineWords st = []
                         \<and> lines st = []
       else 0 < lineWidth st \<and> lineWords st \<noteq> [] \<and> length (lines st) < length seen \<and>
            totalTextWidth st =
              sum_list (map wwidth seen)
                + (real (length seen) - 1 - real (length (lines st))) * s))"

section \<open>The two passes in double arithmetic\<close>

text \<open>
  JavaScript numbers are IEEE 754 doubles.  \<open>double x\<close> is the double nearest to the
  real \<open>x\<close> (53 significant bits, ties to the even significand, gradual underflow
  below \<open>2^-1022\<close>); every arithmetic operation of the code returns the \<open>double\<close> of
  the exact result.  Results at or beyond \<open>2^1024\<close>, which the code turns into
  \<open>Infinity\<close>, are not represented.
\<close>

definition round_even :: "real \<Rightarrow> int" where
  "round_even q =
     (let f = \<lfloor>q\<rfloor> in
      if q - of_int f < 1 / 2 then f
      else if 1 / 2 < q - of_int f then f + 1
      else if even f then f else f + 1)"

text \<open>
  \<open>binade fuel a\<close> is the exponent \<open>e\<close> with \<open>2^e \<le> a < 2^(e+1)\<close> for positive
  \<open>a\<close>, found by halving or doubling at most \<open>fuel\<close> times.
\<close>

fun binade :: "nat \<Rightarrow> real \<Rightarrow> int" where
  "binade 0 a = 0"
| "binade (Suc fuel) a =
     (if 2 \<le> a then binade fuel (a / 2) + 1
      else if a < 1 then binade fuel (a * 2) - 1
      else 0)"

definition pow2 :: "int \<Rightarrow> real" where
  "pow2 e = (if 0 \<le> e then 2 ^ nat e else 1 / 2 ^ nat (- e))"

definition double :: "real \<Rightarrow> real" where
  "double x =
     (if x = 0 then 0
      else let e = max (binade 2200 \<bar>x\<bar>) (- 1022);
               ulp = pow2 (e - 52)
           in real_of_int (round_even (x / ulp)) * ulp)"

text \<open>
  The two passes with every sum and quotient rounded by \<open>rnd\<close>, operation by
  operation as the source performs them.  The word widths, \<open>spaceWidth\<close> and
  \<open>maxTextWidth\<close> are numbers of the code already.  (\<open>lineWidth1\<close> and
  \<open>totalTextWidth1\<close> are pass 1's \<open>lineWidth\<close> and \<open>totalTextWidth\<close>.)
\<close>

definition calcAvgLineWidth_step_fp ::
  "(real \<Rightarrow> real) \<Rightarrow> real \<Rightarrow> real \<Rightarrow> real \<times> real \<times> nat \<Rightarrow> measured_word
     \<Rightarrow> real \<times> real \<times> nat" where
  "calcAvgLineWidth_step_fp rnd spaceWidth maxTextWidth st word =
     (case st of (lineWidth1, totalTextWidth1, linesNeeded) \<Rightarrow>
        let wordWidth = wwidth word in
        if lineWidth1 \<noteq> 0 then
          if rnd (rnd (lineWidth1 + spaceWidth) + wordWidth) \<le> maxTextWidth
          then (rnd (lineWidth1 + rnd (wordWidth + spaceWidth)),
                rnd (totalTextWidth1 + rnd (wordWidth + spaceWidth)), linesNeeded)
          else (rnd (0 + wordWidth), rnd (totalTextWidth1 + wordWidth), linesNeeded + 1)
        else (rnd (lineWidth1 + wordWidth), rnd (totalTextWidth1 + wordWidth), linesNeeded))"

definition calcAvgLineWidth_fp ::
  "(real \<Rightarrow> real) \<Rightarrow> measured_word list \<Rightarrow> real \<Rightarrow> real \<Rightarrow> nat \<times> real" where
  "calcAvgLineWidth_fp rnd words spaceWidth maxTextWidth =
     (case foldl (calcAvgLineWidth_step_fp rnd spaceWidth maxTextWidth) (0, 0, 1) words of
        (lineWidth1, totalTextWidth1, linesNeeded) \<Rightarrow>
          (linesNeeded, rnd (totalTextWidth1 / real linesNeeded)))"

definition clear_line_fp ::
  "(real \<Rightarrow> real) \<Rightarrow> nat \<Rightarrow> real \<Rightarrow> balance_state \<Rightarrow> balance_state" where
  "clear_line_fp rnd linesNeeded avgLineWidth st =
     st\<lparr> lines := lines st @ [join_sp (lineWords st)],
         lineWords := [],
         lineWidth := 0,
         lastLine := (length (lines st @ [join_sp (lineWords st)]) = linesNeeded),
         cumAvgLineWidth := rnd (cumAvgLineWidth st + avgLineWidth) \<rparr>"

definition push_word_fp ::
  "(real \<Rightarrow> real) \<Rightarrow> real \<Rightarrow> measured_word \<Rightarrow> balance_state \<Rightarrow> balance_state" where
  "push_word_fp rnd addWidth word st =
     st\<lparr> lineWidth := rnd (lineWidth st + addWidth),
         totalTextWidth := rnd (totalTextWidth st + addWidth),
         lineWords := lineWords st @ [wtext word] \<rparr>"

definition createBalancedLines_step_fp ::
  "(real \<Rightarrow> real) \<Rightarrow> real \<Rightarrow> nat \<Rightarrow> real \<Rightarrow> real \<Rightarrow> balance_state \<Rightarrow> measured_word
     \<Rightarrow> balance_state" where
  "createBalancedLines_step_fp rnd spaceWidth linesNeeded avgLineWidth maxTextWidth st word =
     (let wordWidth = wwidth word in
      if lineWidth st \<noteq> 0 then
        let wordAndSpaceWidth = rnd (wordWidth + spaceWidth) in
        if rnd (lineWidth st + wordAndSpaceWidth) > maxTextWidth \<or>
           (\<not> lastLine st \<and> rnd (totalTextWidth st + wordAndSpaceWidth) > cumAvgLineWidth st)
        then push_word_fp rnd wordWidth word (clear_line_fp rnd linesNeeded avgLineWidth st)
        else push_word_fp rnd wordAndSpaceWidth word st
      else push_word_fp rnd wordWidth word st)"

definition createBalancedLines_loop_fp ::
  "(real \<Rightarrow> real) \<Rightarrow> measured_word list \<Rightarrow> real \<Rightarrow> nat \<Rightarrow> real \<Rightarrow> real \<Rightarrow> balance_state" where
  "createBalancedLines_loop_fp rnd words spaceWidth linesNeeded avgLineWidth maxTextWidth =
     foldl (createBalancedLines_step_fp rnd spaceWidth linesNeeded avgLineWidth maxTextWidth)
       (createBalancedLines_init linesNeeded avgLineWidth) words"

definition createBalancedLines_fp ::
  "(real \<Rightarrow> real) \<Rightarrow> measured_word list \<Rightarrow> real \<Rightarrow> nat \<Rightarrow> real \<Rightarrow> real \<Rightarrow> string list" where
  "createBalancedLines_fp rnd words spaceWidth linesNeeded avgLineWidth maxTextWidth =
     (let st = createBalancedLines_loop_fp rnd words spaceWidth linesNeeded avgLineWidth
                 maxTextWidth
      in if lineWords st \<noteq> [] then lines st @ [join_sp (lineWords st)] else lines st)"

definition balance_fp :: "(real \<Rightarrow> real) \<Rightarrow> measured_word list \<Rightarrow> real \<Rightarrow> real \<Rightarrow> string list" where
  "balance_fp rnd words spaceWidth maxTextWidth =
     (case calcAvgLineWidth_fp rnd words spaceWidth maxTextWidth of
        (linesNeeded, avgLineWidth) \<Rightarrow>
          createBalancedLines_fp rnd words spaceWidth linesNeeded avgLineWidth maxTextWidth)"

text \<open>
  Pass 2 as the specification words it, in the same arithmetic: checks while the
  current line holds a word, soft constraint while \<open>lines closed so far < linesNeeded - 1\<close>.
\<close>

definition assignLines_step_fp ::
  "(real \<Rightarrow> real) \<Rightarrow> real \<Rightarrow> nat \<Rightarrow> real \<Rightarrow> real \<Rightarrow> balance_state \<Rightarrow> measured_word
     \<Rightarrow> balance_state" where
  "assignLines_step_fp rnd spaceWidth linesNeeded avgLineWidth maxTextWidth st word =
     (let wordWidth = wwidth word in
      if lineWords st \<noteq> [] then
        let wordAndSpaceWidth = rnd (wordWidth + spaceWidth) in
        if rnd (lineWidth st + wordAndSpaceWidth) > maxTextWidth \<or>
           (int (length (lines st)) < int linesNeeded - 1 \<and>
            rnd (totalTextWidth st + wordAndSpaceWidth) > cumAvgLineWidth st)
        then push_word_fp rnd wordWidth word (clear_line_fp rnd linesNeeded avgLineWidth st)
        else push_word_fp rnd wordAndSpaceWidth word st
      else push_word_fp rnd wordWidth word st)"

definition assignLines_fp ::
  "(real \<Rightarrow> real) \<Rightarrow> measured_word list \<Rightarrow> real \<Rightarrow> nat \<Rightarrow> real \<Rightarrow> real \<Rightarrow> string list" where
  "assignLines_fp rnd words spaceWidth linesNeeded avgLineWidth maxTextWidth =
     (let st = foldl (assignLines_step_fp rnd spaceWidth linesNeeded avgLineWidth maxTextWidth)
                 (createBalancedLines_init linesNeeded avgLineWidth) words
      in if lineWords st \<noteq> [] then lines st @ [join_sp (lineWords st)] else lines st)"

section \<open>Caption layout: the embedding\<close>

subsection \<open>Numbers to integers\<close>

text \<open>
  \<open>x|0\<close> is ToInt32: truncation toward zero, then wrap-around into the signed 32-bit
  range.  \<open>Math.ceil\<close> is \<open>ceiling\<close>.
\<close>

definition js_trunc :: "real \<Rightarrow> int" where
  "js_trunc x = (if 0 \<le> x then \<lfloor>x\<rfloor> else \<lceil>x\<rceil>)"

definition toInt32 :: "real \<Rightarrow> int" where
  "toInt32 x = (js_trunc x + 2 ^ 31) mod 2 ^ 32 - 2 ^ 31"


subsection \<open>Options, measured lines and the layout\<close>

text \<open>
  The geometric options of \<open>CAPTION_DEFAULT_OPTS\<close>.  Pixel sizes handed to the canvas
  (\<open>outerPadding\<close>, \<open>resizeComicWidth\<close>) and the size of the image are integers; font
  and colour do not enter the geometry.
\<close>

record caption_opts =
  captionMarginSides :: real
  captionMarginTop :: real
  lineSpacing :: real
  outerPadding :: int
  resizeComicWidth :: int

text \<open>A balanced line after measuring: \<open>{ text, width: measure.width, height }\<close>.\<close>

record text_line =
  ltext :: string
  lwidth :: real
  lheight :: real

record placed_line =
  ptext :: string
  px :: real
  py :: real

record layout_plan =
  canvasWidth :: int
  canvasHeight :: int
  imageRect :: "int \<times> int \<times> int \<times> int"
  linePositions :: "placed_line list"

text \<open>
  \<open>comicHeight = (scaleFactor * imageHeight)|0\<close> with
  \<open>scaleFactor = comicWidth / imageWidth\<close>.  For \<open>imageWidth = 0\<close> the quotient is
  infinite or NaN in JavaScript and \<open>|0\<close> maps both to 0; division by zero in HOL
  gives 0 as well, so the model agrees there.  The quotient and the product are exact
  here; the code rounds both to doubles before \<open>|0\<close>, which can lower the result by
  one (an image of 424 by 318 gives 449 in the code and 450 here).
\<close>

definition comicHeight_of :: "caption_opts \<Rightarrow> int \<Rightarrow> int \<Rightarrow> int" where
  "comicHeight_of opts imageWidth imageHeight =
     toInt32 (real_of_int (resizeComicWidth opts) / real_of_int imageWidth * real_of_int imageHeight)"

text \<open>
  The canvas copies: \<open>Math.ceil(totalLineHeight + (lines.length - 1) * lineSpacing +
  captionMarginTop)\<close>.
\<close>

definition captionHeight :: "caption_opts \<Rightarrow> text_line list \<Rightarrow> int" where
  "captionHeight opts lns =
     \<lceil>sum_list (map lheight lns) + (real (length lns) - 1) * lineSpacing opts
        + captionMarginTop opts\<rceil>"

text \<open>The loop that draws the text: each line centred on its own width.\<close>

fun place_lines :: "real \<Rightarrow> real \<Rightarrow> real \<Rightarrow> text_line list \<Rightarrow> placed_line list" where
  "place_lines finalImageWidth spacing textY [] = []"
| "place_lines finalImageWidth spacing textY (line # rest) =
     \<lparr> ptext = ltext line, px = (finalImageWidth - lwidth line) / 2, py = textY \<rparr>
       # place_lines finalImageWidth spacing (textY + lheight line + spacing) rest"

text \<open>
  The canvas copy without the square step (\<open>finalImageWidth\<close>, \<open>finalImageHeight\<close>,
  \<open>drawImage(image, outerPadding, outerPadding, comicWidth, comicHeight)\<close>, text drawn
  at unrounded positions).
\<close>

definition caption_layout :: "caption_opts \<Rightarrow> int \<Rightarrow> int \<Rightarrow> text_line list \<Rightarrow> layout_plan" where
  "caption_layout opts imageWidth imageHeight lns =
     (let comicWidth = resizeComicWidth opts;
          comicHeight = comicHeight_of opts imageWidth imageHeight;
          finalImageWidth = comicWidth + 2 * outerPadding opts;
          finalImageHeight = comicHeight + 2 * outerPadding opts + captionHeight opts lns
      in \<lparr> canvasWidth = finalImageWidth,
            canvasHeight = finalImageHeight,
            imageRect = (outerPadding opts, outerPadding opts, comicWidth, comicHeight),
            linePositions =
              place_lines (real_of_int finalImageWidth) (lineSpacing opts)
                (real_of_int (outerPadding opts + comicHeight) + captionMarginTop opts) lns \<rparr>)"

text \<open>
  The square step of the other canvas copy:
  \<open>if (canvas.width < canvas.height && (canvas.height / canvas.width) <= 1.75)
  canvas.width = canvas.height\<close>.  For a width of 0 the quotient is \<open>Infinity\<close> (the
  height is positive there) and the test fails, which the model writes out.
\<close>

definition squareAdjust :: "int \<times> int \<Rightarrow> int \<times> int" where
  "squareAdjust wh =
     (case wh of (w, h) \<Rightarrow>
        if w < h \<and> w \<noteq> 0 \<and> real_of_int h / real_of_int w \<le> 175 / 100 then (h, h) else (w, h))"

fun place_lines_int :: "real \<Rightarrow> real \<Rightarrow> real \<Rightarrow> text_line list \<Rightarrow> placed_line list" where
  "place_lines_int canvasW spacing y [] = []"
| "place_lines_int canvasW spacing y (line # rest) =
     \<lparr> ptext = ltext line,
       px = real_of_int (toInt32 ((canvasW - lwidth line) / 2)),
       py = real_of_int (toInt32 y) \<rparr>
       # place_lines_int canvasW spacing (y + lheight line + spacing) rest"

definition caption_layout_square ::
  "caption_opts \<Rightarrow> int \<Rightarrow> int \<Rightarrow> text_line list \<Rightarrow> layout_plan" where
  "caption_layout_square opts imageWidth imageHeight lns =
     (let comicWidth = resizeComicWidth opts;
          comicHeight = comicHeight_of opts imageWidth imageHeight;
          width0 = comicWidth + 2 * outerPadding opts;
          height0 = comicHeight + 2 * outerPadding opts;
          height1 = height0 + captionHeight opts lns;
          (w, h) = squareAdjust (width0, height1);
          x = (real_of_int w - real_of_int comicWidth) / 2
      in \<lparr> canvasWidth = w,
            canvasHeight = h,
            imageRect = (toInt32 x, toInt32 (real_of_int (outerPadding opts)), comicWidth, comicHeight),
            linePositions =
              place_lines_int (real_of_int w) (lineSpacing opts)
                (real_of_int (outerPadding opts) + real_of_int comicHeight + captionMarginTop opts)
                lns \<rparr>)"

subsection \<open>From the caption to the layout\<close>

text \<open>
  Text measurement is the backend's: \<open>ctx.measureText\<close> is a parameter of the model.
\<close>

record text_metrics =
  mwidth :: real
  emHeightAscent :: real
  emHeightDescent :: real

definition caption_lines :: "(string \<Rightarrow> text_metrics) \<Rightarrow> string \<Rightarrow> real \<Rightarrow> text_line list" where
  "caption_lines measureText caption maxTextWidth =
     (let spaceWidth = mwidth (measureText '' '');
          words = map (\<lambda>word. \<lparr> wtext = word, wwidth = mwidth (measureText word) \<rparr>)
                    (split_ws caption)
      in map (\<lambda>t. \<lparr> ltext = t, lwidth = mwidth (measureText t),
                      lheight = emHeightAscent (measureText t) + emHeightDescent (measureText t) \<rparr>)
           (balance words spaceWidth maxTextWidth))"

text \<open>The copy without the square step takes the text width from the original image.\<close>

definition caption_plain ::
  "(string \<Rightarrow> text_metrics) \<Rightarrow> caption_opts \<Rightarrow> int \<Rightarrow> int \<Rightarrow> string \<Rightarrow> layout_plan" where
  "caption_plain measureText opts imageWidth imageHeight caption =
     caption_layout opts imageWidth imageHeight
       (caption_lines measureText caption
          (real_of_int imageWidth - captionMarginSides opts * 2))"

definition caption_square ::
  "(string \<Rightarrow> text_metrics) \<Rightarrow> caption_opts \<Rightarrow> int \<Rightarrow> int \<Rightarrow> string \<Rightarrow> layout_plan" where
  "caption_square measureText opts imageWidth imageHeight caption =
     caption_layout_square opts imageWidth imageHeight
       (caption_lines measureText caption
          (real_of_int (resizeComicWidth opts) - captionMarginSides opts * 2))"

subsection \<open>The gd copies\<close>





section \<open>Concrete inputs\<close>

text \<open>Six words of width 40 each.\<close>

definition six_words :: "measured_word list" where
  "six_words = map (\<lambda>t. \<lparr> wtext = t, wwidth = 40 \<rparr>)
     [''one'', ''two'', ''three'', ''four'', ''five'', ''six'']"


text \<open>A caption with one word far wider than the column.\<close>

definition overwide_words :: "measured_word list" where
  "overwide_words =
     [\<lparr> wtext = ''a'', wwidth = 10 \<rparr>, \<lparr> wtext = ''Llanfairpwllgwyngyll'', wwidth = 200 \<rparr>,
      \<lparr> wtext = ''b'', wwidth = 10 \<rparr>]"

text \<open>
  The words of the caption \<open>a c z b\<close> where \<open>z\<close> is a ZERO WIDTH SPACE (U+200B, in
  UTF-8 the bytes E2 80 8B), which \<open>\s\<close> does not match and which measures 0.
\<close>

definition zero_width_space :: string where
  "zero_width_space = [CHR 0xE2, CHR 0x80, CHR 0x8B]"

definition zero_width_words :: "measured_word list" where
  "zero_width_words =
     [\<lparr> wtext = ''a'', wwidth = 50 \<rparr>, \<lparr> wtext = ''c'', wwidth = 10 \<rparr>,
      \<lparr> wtext = zero_width_space, wwidth = 0 \<rparr>, \<lparr> wtext = ''b'', wwidth = 5 \<rparr>]"

text \<open>
  The defaults of the canvas copy with the square step, and the same with the line
  spacing set to -30 and to 0.
\<close>

definition default_opts :: caption_opts where
  "default_opts = \<lparr> captionMarginSides = 36, captionMarginTop = 24, lineSpacing = 2,
     outerPadding = 16, resizeComicWidth = 600 \<rparr>"



text \<open>A measured line of the given height (text \<open>x\<close>, width 100).\<close>

definition line_of_height :: "real \<Rightarrow> text_line" where
  "line_of_height h = \<lparr> ltext = ''x'', lwidth = 100, lheight = h \<rparr>"

text \<open>A measuring function: 10 units per character, ascent 15, descent 5.\<close>

definition fixed_pitch :: "string \<Rightarrow> text_metrics" where
  "fixed_pitch t = \<lparr> mwidth = 10 * real (length t), emHeightAscent = 15, emHeightDescent = 5 \<rparr>"

text \<open>Seven words of widths 85, 75, 65, 60, 40, 35 and 30.\<close>

definition seven_words :: "measured_word list" where
  "seven_words =
     [\<lparr> wtext = ''a'', wwidth = 85 \<rparr>, \<lparr> wtext = ''b'', wwidth = 75 \<rparr>,
      \<lparr> wtext = ''c'', wwidth = 65 \<rparr>, \<lparr> wtext = ''d'', wwidth = 60 \<rparr>,
      \<lparr> wtext = ''e'', wwidth = 40 \<rparr>, \<lparr> wtext = ''f'', wwidth = 35 \<rparr>,
      \<lparr> wtext = ''g'', wwidth = 30 \<rparr>]"

section \<open>Lemmas\<close>

subsection \<open>Joining and splitting\<close>

lemma is_ws_space: "is_ws CHR '' ''"
  by (simp add: is_ws_def)

lemma split_ws_ws_free: "ws_free t \<Longrightarrow> split_ws t = [t]"
proof -
  assume "ws_free t"
  then have h: "dropWhile (\<lambda>c. \<not> is_ws c) t = []"
    by (simp add: ws_free_def)
  show ?thesis
    by (subst split_ws.simps, subst h) simp
qed

lemma takeWhile_ws_free: "ws_free t \<Longrightarrow> takeWhile (\<lambda>c. \<not> is_ws c) (t @ CHR '' '' # r) = t"
  by (simp add: ws_free_def takeWhile_append is_ws_space)

lemma dropWhile_ws_free: "ws_free t \<Longrightarrow> dropWhile (\<lambda>c. \<not> is_ws c) (t @ CHR '' '' # r) = CHR '' '' # r"
  by (simp add: ws_free_def dropWhile_append is_ws_space)

lemma split_ws_cons: "ws_free t \<Longrightarrow> split_ws (t @ CHR '' '' # r) = t # split_ws (dropWhile is_ws r)"
  by (subst split_ws.simps) (simp add: takeWhile_ws_free dropWhile_ws_free)

lemma join_sp_Cons: "ts \<noteq> [] \<Longrightarrow> join_sp (t # ts) = t @ CHR '' '' # join_sp ts"
  by (cases ts) simp_all

lemma later_ok_no_lead: "later_ok ts \<Longrightarrow> dropWhile is_ws (join_sp ts) = join_sp ts"
proof (cases ts)
  case Nil then show ?thesis by simp
next
  case (Cons t us)
  assume ok: "later_ok ts"
  show ?thesis
  proof (cases "t = []")
    case True
    with ok Cons have "us = []" by (auto simp: later_ok_def split: if_splits)
    with True Cons show ?thesis by simp
  next
    case False
    then obtain c cs where t: "t = c # cs" by (cases t) auto
    with ok Cons have "\<not> is_ws c" by (auto simp: later_ok_def ws_free_def)
    then show ?thesis using Cons t by (cases us) simp_all
  qed
qed

lemma split_ws_join_later: "later_ok ts \<Longrightarrow> split_ws (join_sp ts) = ts"
proof (induction ts)
  case Nil then show ?case by (simp add: later_ok_def)
next
  case (Cons t us)
  show ?case
  proof (cases "us = []")
    case True
    with Cons.prems show ?thesis by (simp add: later_ok_def split_ws_ws_free)
  next
    case False
    with Cons.prems have ok: "later_ok us" and wf: "ws_free t"
      by (auto simp: later_ok_def)
    have "split_ws (join_sp (t # us)) = t # split_ws (dropWhile is_ws (join_sp us))"
      using False wf by (simp add: join_sp_Cons split_ws_cons)
    also have "\<dots> = t # us"
      using ok Cons.IH by (simp add: later_ok_no_lead)
    finally show ?thesis .
  qed
qed

lemma split_ws_join: "tokens_ok ts \<Longrightarrow> split_ws (join_sp ts) = ts"
proof (cases ts)
  case Nil
  assume "tokens_ok ts"
  with Nil show ?thesis by (simp add: tokens_ok_def)
next
  case (Cons t us)
  assume ok: "tokens_ok ts"
  show ?thesis
  proof (cases "us = []")
    case True
    with ok Cons show ?thesis by (simp add: tokens_ok_def split_ws_ws_free)
  next
    case False
    with ok Cons have l: "later_ok us" and wf: "ws_free t"
      by (auto simp: tokens_ok_def later_ok_def)
    have "split_ws (join_sp (t # us)) = t # split_ws (dropWhile is_ws (join_sp us))"
      using False wf by (simp add: join_sp_Cons split_ws_cons)
    also have "\<dots> = t # us"
      using l by (simp add: later_ok_no_lead split_ws_join_later)
    finally show ?thesis using Cons by simp
  qed
qed

lemma butlast_tl_append_right: "set (butlast (tl ys)) \<subseteq> set (butlast (tl (ys @ zs)))"
proof (cases ys)
  case Nil then show ?thesis by simp
next
  case (Cons y ys')
  then show ?thesis by (auto simp: butlast_append dest: in_set_butlastD)
qed

lemma butlast_tl_append_left: "set (butlast (tl ys)) \<subseteq> set (butlast (tl (xs @ ys)))"
proof (cases xs)
  case Nil then show ?thesis by simp
next
  case (Cons x xs')
  show ?thesis
  proof (cases ys)
    case Nil then show ?thesis by simp
  next
    case (Cons y ys')
    have "set (butlast (tl ys)) \<subseteq> set (butlast ys)"
      using Cons by (auto simp: dest: in_set_butlastD)
    then show ?thesis using \<open>xs = x # xs'\<close> Cons by (auto simp: butlast_append)
  qed
qed

lemma tokens_ok_mid: "tokens_ok (xs @ ys @ zs) \<Longrightarrow> ys \<noteq> [] \<Longrightarrow> tokens_ok ys"
proof -
  assume ok: "tokens_ok (xs @ ys @ zs)" and ne: "ys \<noteq> []"
  have "set (butlast (tl ys)) \<subseteq> set (butlast (tl (ys @ zs)))"
    by (rule butlast_tl_append_right)
  also have "\<dots> \<subseteq> set (butlast (tl (xs @ (ys @ zs))))"
    by (rule butlast_tl_append_left)
  finally have "set (butlast (tl ys)) \<subseteq> set (butlast (tl (xs @ ys @ zs)))" .
  with ok ne show ?thesis
    unfolding tokens_ok_def by auto
qed

lemma tokens_ok_group:
  assumes "tokens_ok (concat gs)" "g \<in> set gs" "g \<noteq> []"
  shows "tokens_ok g"
proof -
  from assms(2) obtain as bs where "gs = as @ g # bs"
    by (auto dest: split_list)
  then have "concat gs = concat as @ g @ concat bs" by simp
  with assms(1,3) show ?thesis by (auto intro: tokens_ok_mid)
qed

lemma join_sp_append: "xs \<noteq> [] \<Longrightarrow> ys \<noteq> [] \<Longrightarrow> join_sp (xs @ ys) = join_sp xs @ CHR '' '' # join_sp ys"
proof (induction xs rule: join_sp.induct)
  case 1 then show ?case by simp
next
  case (2 x) then show ?case by (simp add: join_sp_Cons)
next
  case (3 x y ys') then show ?case by simp
qed

lemma join_sp_concat: "[] \<notin> set gs \<Longrightarrow> join_sp (map join_sp gs) = join_sp (concat gs)"
proof (induction gs)
  case Nil then show ?case by simp
next
  case (Cons g gs)
  show ?case
  proof (cases "gs = []")
    case True then show ?thesis by simp
  next
    case False
    with Cons.prems have "concat gs \<noteq> []" by (cases gs) auto
    moreover from Cons.prems have "g \<noteq> []" by auto
    ultimately show ?thesis using False Cons by (simp add: join_sp_Cons join_sp_append)
  qed
qed

lemma ws_free_takeWhile: "ws_free (takeWhile (\<lambda>c. \<not> is_ws c) s)"
  by (auto simp: ws_free_def dest: set_takeWhileD)

lemma later_ok_split_ws: "s = [] \<or> \<not> is_ws (hd s) \<Longrightarrow> later_ok (split_ws s)"
proof (induction s rule: split_ws.induct)
  case (1 s)
  show ?case
  proof (cases "dropWhile (\<lambda>c. \<not> is_ws c) s")
    case Nil
    then have "ws_free s" by (simp add: ws_free_def)
    then show ?thesis by (simp add: split_ws_ws_free later_ok_def)
  next
    case (Cons c rest)
    let ?r = "dropWhile is_ws rest"
    have "?r = [] \<or> \<not> is_ws (hd ?r)"
      using hd_dropWhile [of is_ws rest] by auto
    with 1 Cons have IH: "later_ok (split_ws ?r)" by simp
    have eq: "split_ws s = takeWhile (\<lambda>c. \<not> is_ws c) s # split_ws ?r"
      by (subst split_ws.simps, subst Cons) simp
    have "s \<noteq> []" using Cons by auto
    with 1(2) have "\<not> is_ws (hd s)" by simp
    then have "takeWhile (\<lambda>c. \<not> is_ws c) s \<noteq> []"
      using \<open>s \<noteq> []\<close> by (cases s) auto
    with IH show ?thesis
      unfolding eq later_ok_def by (auto simp: ws_free_takeWhile)
  qed
qed

lemma tokens_ok_split_ws: "tokens_ok (split_ws s)"
proof (cases "dropWhile (\<lambda>c. \<not> is_ws c) s")
  case Nil
  then have "ws_free s" by (simp add: ws_free_def)
  then show ?thesis by (simp add: split_ws_ws_free tokens_ok_def)
next
  case (Cons c rest)
  let ?r = "dropWhile is_ws rest"
  have "?r = [] \<or> \<not> is_ws (hd ?r)"
    using hd_dropWhile [of is_ws rest] by auto
  then have l: "later_ok (split_ws ?r)" by (rule later_ok_split_ws)
  have eq: "split_ws s = takeWhile (\<lambda>c. \<not> is_ws c) s # split_ws ?r"
    by (subst split_ws.simps, subst Cons) simp
  from l show ?thesis
    unfolding eq tokens_ok_def later_ok_def by (auto simp: ws_free_takeWhile)
qed

lemma line_width_pos:
  assumes "positive_widths s g" "g \<noteq> []"
  shows "0 < line_width s g"
proof -
  from assms obtain x xs where g: "g = x # xs" by (cases g) auto
  have "0 \<le> sum_list (map wwidth xs)"
    using assms(1) g by (intro sum_list_nonneg) (auto simp: positive_widths_def less_imp_le)
  moreover have "0 < wwidth x" using assms(1) g by (simp add: positive_widths_def)
  moreover have "0 \<le> real (length xs) * s" using assms(1) by (simp add: positive_widths_def)
  ultimately show ?thesis by (simp add: line_width_def g)
qed

lemma line_width_snoc:
  "g \<noteq> [] \<Longrightarrow> line_width s (g @ [w]) = line_width s g + (wwidth w + s)"
  by (simp add: line_width_def algebra_simps)

lemma line_width_single: "line_width s [w] = wwidth w"
  by (simp add: line_width_def)

lemma positive_widths_append:
  "positive_widths s (xs @ ys) = (positive_widths s xs \<and> positive_widths s ys)"
  by (auto simp: positive_widths_def)

lemma positive_widths_concat:
  "positive_widths s (concat gs) \<Longrightarrow> g \<in> set gs \<Longrightarrow> positive_widths s g"
  by (auto simp: positive_widths_def)

lemma bal_inv_init: "bal_inv s m [] (createBalancedLines_init n avg)"
  unfolding bal_inv_def createBalancedLines_init_def
  by (rule exI [of _ "[]"], rule exI [of _ "[]"]) (simp add: line_fits_def)

lemma step_closing:
  assumes "lineWidth st \<noteq> 0"
    "lineWidth st + (wwidth w + s) > m \<or>
      (\<not> lastLine st \<and> totalTextWidth st + (wwidth w + s) > cumAvgLineWidth st)"
  shows "createBalancedLines_step s n avg m st w = push_word (wwidth w) w (clear_line n avg st)"
  using assms by (simp add: createBalancedLines_step_def Let_def)

lemma step_keeping:
  assumes "\<not> (lineWidth st \<noteq> 0 \<and> (lineWidth st + (wwidth w + s) > m \<or>
      (\<not> lastLine st \<and> totalTextWidth st + (wwidth w + s) > cumAvgLineWidth st)))"
  shows "createBalancedLines_step s n avg m st w =
     push_word (if lineWidth st \<noteq> 0 then wwidth w + s else wwidth w) w st"
  using assms by (auto simp add: createBalancedLines_step_def Let_def)

lemma bal_inv_step:
  assumes "bal_inv s m seen st"
  shows "bal_inv s m (seen @ [w]) (createBalancedLines_step s n avg m st w)"
proof -
  from assms obtain gs cur where
    seen: "concat gs @ cur = seen" and ne: "[] \<notin> set gs" and
    ls: "lines st = map line_text gs" and lw: "lineWords st = map wtext cur" and
    nz: "lineWidth st \<noteq> 0 \<longrightarrow> cur \<noteq> []" and
    pw: "positive_widths s seen \<longrightarrow>
           lineWidth st = (if cur = [] then 0 else line_width s cur) \<and>
           (\<forall>g \<in> set gs. line_fits s m g) \<and> line_fits s m cur"
    unfolding bal_inv_def by blast
  let ?closing = "lineWidth st \<noteq> 0 \<and>
     (lineWidth st + (wwidth w + s) > m \<or>
      (\<not> lastLine st \<and> totalTextWidth st + (wwidth w + s) > cumAvgLineWidth st))"
  let ?st' = "createBalancedLines_step s n avg m st w"
  show ?thesis
  proof (cases ?closing)
    case True
    then have eq: "?st' = push_word (wwidth w) w (clear_line n avg st)"
      by (intro step_closing) simp_all
    from True nz have cur: "cur \<noteq> []" by simp
    have "concat (gs @ [cur]) @ [w] = seen @ [w]" using seen by simp
    moreover have "[] \<notin> set (gs @ [cur])" using ne cur by simp
    moreover have "lines ?st' = map line_text (gs @ [cur])"
      unfolding eq using ls lw by (simp add: push_word_def clear_line_def line_text_def)
    moreover have "lineWords ?st' = map wtext [w]"
      unfolding eq by (simp add: push_word_def clear_line_def)
    moreover have lw': "lineWidth ?st' = wwidth w"
      unfolding eq by (simp add: push_word_def clear_line_def)
    moreover have "positive_widths s (seen @ [w]) \<longrightarrow>
           lineWidth ?st' = (if [w] = [] then 0 else line_width s [w]) \<and>
           (\<forall>g \<in> set (gs @ [cur]). line_fits s m g) \<and> line_fits s m [w]"
      using pw lw' by (auto simp: positive_widths_append line_width_single line_fits_def)
    ultimately show ?thesis
      unfolding bal_inv_def by (intro exI [of _ "gs @ [cur]"] exI [of _ "[w]"]) simp
  next
    case False
    then have eq: "?st' = push_word (if lineWidth st \<noteq> 0 then wwidth w + s else wwidth w) w st"
      by (rule step_keeping)
    have "concat gs @ (cur @ [w]) = seen @ [w]" using seen by simp
    moreover have "lines ?st' = map line_text gs"
      unfolding eq using ls by (simp add: push_word_def)
    moreover have "lineWords ?st' = map wtext (cur @ [w])"
      unfolding eq using lw by (simp add: push_word_def)
    moreover have lw': "lineWidth ?st' =
        lineWidth st + (if lineWidth st \<noteq> 0 then wwidth w + s else wwidth w)"
      unfolding eq by (simp add: push_word_def)
    moreover have "positive_widths s (seen @ [w]) \<longrightarrow>
           lineWidth ?st' = (if cur @ [w] = [] then 0 else line_width s (cur @ [w])) \<and>
           (\<forall>g \<in> set gs. line_fits s m g) \<and> line_fits s m (cur @ [w])"
    proof
      assume p: "positive_widths s (seen @ [w])"
      then have ps: "positive_widths s seen" by (simp add: positive_widths_append)
      with pw have old: "lineWidth st = (if cur = [] then 0 else line_width s cur)"
        and fits: "\<forall>g \<in> set gs. line_fits s m g" by simp_all
      have pc: "positive_widths s cur"
        using ps seen by (auto simp: positive_widths_def)
      show "lineWidth ?st' = (if cur @ [w] = [] then 0 else line_width s (cur @ [w])) \<and>
           (\<forall>g \<in> set gs. line_fits s m g) \<and> line_fits s m (cur @ [w])"
      proof (cases "cur = []")
        case True
        with old lw' fits show ?thesis by (simp add: line_width_single line_fits_def)
      next
        case cne: False
        with old pc have l1: "lineWidth st = line_width s cur" and l2: "lineWidth st \<noteq> 0"
          using line_width_pos [of s cur] by auto
        from l2 False have "lineWidth st + (wwidth w + s) \<le> m" by auto
        with l1 l2 show ?thesis
          using lw' fits cne by (simp add: line_width_snoc line_fits_def)
      qed
    qed
    ultimately show ?thesis
      unfolding bal_inv_def using ne by (intro exI [of _ gs] exI [of _ "cur @ [w]"]) simp
  qed
qed

lemma bal_inv_foldl:
  "bal_inv s m seen st \<Longrightarrow>
   bal_inv s m (seen @ ws) (foldl (createBalancedLines_step s n avg m) st ws)"
proof (induction ws arbitrary: seen st)
  case Nil then show ?case by simp
next
  case (Cons w ws)
  from Cons.prems have "bal_inv s m (seen @ [w]) (createBalancedLines_step s n avg m st w)"
    by (rule bal_inv_step)
  from Cons.IH [OF this] show ?case by simp
qed

lemma createBalancedLines_groups:
  "\<exists>gs. createBalancedLines ws s n avg m = map line_text gs \<and> concat gs = ws \<and> [] \<notin> set gs \<and>
        (positive_widths s ws \<longrightarrow> (\<forall>g \<in> set gs. line_fits s m g))"
proof -
  let ?st = "createBalancedLines_loop ws s n avg m"
  have "bal_inv s m ([] @ ws) ?st"
    unfolding createBalancedLines_loop_def by (rule bal_inv_foldl) (rule bal_inv_init)
  then obtain gs cur where
    seen: "concat gs @ cur = ws" and ne: "[] \<notin> set gs" and
    ls: "lines ?st = map line_text gs" and lw: "lineWords ?st = map wtext cur" and
    pw: "positive_widths s ws \<longrightarrow>
           (\<forall>g \<in> set gs. line_fits s m g) \<and> line_fits s m cur"
    unfolding bal_inv_def by auto
  show ?thesis
  proof (cases "cur = []")
    case True
    with seen ne ls lw pw show ?thesis
      by (intro exI [of _ gs]) (simp add: createBalancedLines_def)
  next
    case False
    with seen ne ls lw pw show ?thesis
      by (intro exI [of _ "gs @ [cur]"]) (auto simp: createBalancedLines_def line_text_def)
  qed
qed

subsection \<open>Pass 1: the line count and the total width\<close>

lemma calcAvgLineWidth_step_lines:
  "1 \<le> snd (snd st) \<Longrightarrow> 1 \<le> snd (snd (calcAvgLineWidth_step s m st w))"
  by (cases st) (simp add: calcAvgLineWidth_step_def Let_def)

lemma calcAvgLineWidth_foldl_lines:
  "1 \<le> snd (snd st) \<Longrightarrow> 1 \<le> snd (snd (foldl (calcAvgLineWidth_step s m) st ws))"
proof (induction ws arbitrary: st)
  case Nil then show ?case by simp
next
  case (Cons w ws)
  have "1 \<le> snd (snd (calcAvgLineWidth_step s m st w))"
    using Cons.prems by (rule calcAvgLineWidth_step_lines)
  from Cons.IH [OF this] show ?case by simp
qed

lemma calcAvgLineWidth_loop_lines: "1 \<le> snd (snd (calcAvgLineWidth_loop ws s m))"
  unfolding calcAvgLineWidth_loop_def by (rule calcAvgLineWidth_foldl_lines) simp

lemma calcAvgLineWidth_fst:
  "fst (calcAvgLineWidth ws s m) = snd (snd (calcAvgLineWidth_loop ws s m))"
  by (simp add: calcAvgLineWidth_def split: prod.splits)

lemma counted_step:
  assumes "counted s seen st" "seen = [] \<longrightarrow> fst st = 0"
  shows "counted s (seen @ [w]) (calcAvgLineWidth_step s m st w)"
proof -
  obtain lw tot n where st: "st = (lw, tot, n)" by (cases st)
  from assms(1) st obtain k :: nat where k: "k \<le> length seen - 1"
    and tot: "tot = sum_list (map wwidth seen) + real k * s"
    unfolding counted_def by auto
  show ?thesis
  proof (cases "lw \<noteq> 0 \<and> lw + s + wwidth w \<le> m")
    case True
    with assms(2) st have "seen \<noteq> []" by auto
    then have "Suc k \<le> length (seen @ [w]) - 1" using k by (cases seen) auto
    moreover have "fst (snd (calcAvgLineWidth_step s m st w)) =
        sum_list (map wwidth (seen @ [w])) + real (Suc k) * s"
      using True st tot by (simp add: calcAvgLineWidth_step_def Let_def algebra_simps)
    ultimately show ?thesis unfolding counted_def by blast
  next
    case False
    have "k \<le> length (seen @ [w]) - 1" using k by simp
    moreover have "fst (snd (calcAvgLineWidth_step s m st w)) =
        sum_list (map wwidth (seen @ [w])) + real k * s"
      using False st tot by (auto simp add: calcAvgLineWidth_step_def Let_def)
    ultimately show ?thesis unfolding counted_def by blast
  qed
qed

lemma counted_foldl:
  "counted s seen st \<Longrightarrow> (seen = [] \<longrightarrow> fst st = 0) \<Longrightarrow>
   counted s (seen @ ws) (foldl (calcAvgLineWidth_step s m) st ws)"
proof (induction ws arbitrary: seen st)
  case Nil then show ?case by simp
next
  case (Cons w ws)
  have "counted s (seen @ [w]) (calcAvgLineWidth_step s m st w)"
    using Cons.prems by (rule counted_step)
  from Cons.IH [OF this] show ?case by simp
qed

lemma calcAvgLineWidth_loop_counted:
  "\<exists>k::nat. k \<le> length ws - 1 \<and>
     fst (snd (calcAvgLineWidth_loop ws s m)) = sum_list (map wwidth ws) + real k * s"
proof -
  have "counted s [] (0, 0, 1)" by (simp add: counted_def)
  then have "counted s ([] @ ws) (foldl (calcAvgLineWidth_step s m) (0, 0, 1) ws)"
    by (rule counted_foldl) simp
  then show ?thesis by (simp add: counted_def calcAvgLineWidth_loop_def)
qed

lemma map_split_ws_join_sp:
  "(\<And>g. g \<in> set ts \<Longrightarrow> split_ws (join_sp g) = g) \<Longrightarrow> map split_ws (map join_sp ts) = ts"
  by (induction ts) simp_all

subsection \<open>The two wordings of pass 2 agree on words of positive width\<close>

lemma pass1_inv_step:
  assumes "pass1_inv s seen st" "0 \<le> s" "0 < wwidth w"
  shows "pass1_inv s (seen @ [w]) (calcAvgLineWidth_step s m st w)"
proof -
  obtain lw tot n where st: "st = (lw, tot, n)" by (cases st)
  show ?thesis
  proof (cases "seen = []")
    case True
    with assms st show ?thesis
      by (simp add: pass1_inv_def calcAvgLineWidth_step_def Let_def)
  next
    case False
    with assms(1) st have lw: "0 < lw" and n: "1 \<le> n" "n \<le> length seen"
      and tot: "tot = sum_list (map wwidth seen) + (real (length seen) - real n) * s"
      by (simp_all add: pass1_inv_def)
    show ?thesis
    proof (cases "lw + s + wwidth w \<le> m")
      case True
      with lw st have "calcAvgLineWidth_step s m st w = (lw + (wwidth w + s), tot + (wwidth w + s), n)"
        by (simp add: calcAvgLineWidth_step_def Let_def)
      moreover have "0 < lw + (wwidth w + s)" using lw assms(2,3) by simp
      moreover have "tot + (wwidth w + s) =
          sum_list (map wwidth (seen @ [w])) + (real (length (seen @ [w])) - real n) * s"
        using tot by (simp add: algebra_simps)
      ultimately show ?thesis using n by (simp add: pass1_inv_def)
    next
      case False
      with lw st have "calcAvgLineWidth_step s m st w = (0 + wwidth w, tot + wwidth w, n + 1)"
        by (simp add: calcAvgLineWidth_step_def Let_def)
      moreover have "tot + wwidth w =
          sum_list (map wwidth (seen @ [w])) + (real (length (seen @ [w])) - real (n + 1)) * s"
        using tot by (simp add: algebra_simps)
      ultimately show ?thesis using n assms(3) by (simp add: pass1_inv_def)
    qed
  qed
qed

lemma pass1_inv_foldl:
  "pass1_inv s seen st \<Longrightarrow> positive_widths s ws \<Longrightarrow>
   pass1_inv s (seen @ ws) (foldl (calcAvgLineWidth_step s m) st ws)"
proof (induction ws arbitrary: seen st)
  case Nil then show ?case by simp
next
  case (Cons w ws)
  from Cons.prems(2) have s: "0 \<le> s" and w: "0 < wwidth w" and rest: "positive_widths s ws"
    by (simp_all add: positive_widths_def)
  have "pass1_inv s (seen @ [w]) (calcAvgLineWidth_step s m st w)"
    using Cons.prems(1) s w by (rule pass1_inv_step)
  from Cons.IH [OF this rest] show ?case by simp
qed

lemma pass1_total:
  assumes "positive_widths s words" "words \<noteq> []"
    and "calcAvgLineWidth_loop words s m = (lw, tot, n)"
  shows "1 \<le> n \<and> n \<le> length words \<and>
    tot = sum_list (map wwidth words) + (real (length words) - real n) * s"
proof -
  have "pass1_inv s [] (0, 0, 1)" by (simp add: pass1_inv_def)
  from pass1_inv_foldl [OF this assms(1), of m] assms(2,3) show ?thesis
    by (simp add: calcAvgLineWidth_loop_def pass1_inv_def)
qed

lemma sum_widths_prefix:
  assumes "positive_widths s (xs @ ys)"
  shows "sum_list (map wwidth xs) \<le> sum_list (map wwidth (xs @ ys))"
proof -
  have "0 \<le> sum_list (map wwidth ys)"
    using assms by (intro sum_list_nonneg) (auto simp: positive_widths_def less_imp_le)
  then show ?thesis by simp
qed

text \<open>
  Once \<open>linesNeeded - 1\<close> lines are closed, the running total cannot exceed the
  cumulative average: the soft test is false there, whatever the flag says.
\<close>

lemma soft_test_false:
  fixes seen rest :: "measured_word list"
  assumes pos: "positive_widths s (seen @ w # rest)"
    and n: "1 \<le> n" "n \<le> length (seen @ w # rest)"
    and tot: "tot = sum_list (map wwidth (seen @ w # rest))
                 + (real (length (seen @ w # rest)) - real n) * s"
    and c: "c < length seen" "int n - 1 \<le> int c"
  shows "sum_list (map wwidth seen) + (real (length seen) - 1 - real c) * s + (wwidth w + s)
           \<le> (real c + 1) * (tot / real n)"
proof -
  let ?all = "seen @ w # rest"
  from pos have s: "0 \<le> s" by (simp add: positive_widths_def)
  have "positive_widths s ((seen @ [w]) @ rest)" using pos by simp
  then have w1: "sum_list (map wwidth (seen @ [w])) \<le> sum_list (map wwidth ?all)"
    using sum_widths_prefix [of s "seen @ [w]" rest] by simp
  have cn: "real n \<le> real c + 1" using c(2) by linarith
  have "real (length seen) - real c \<le> real (length ?all) - real n"
    using cn by simp
  then have w2: "(real (length seen) - real c) * s \<le> (real (length ?all) - real n) * s"
    using s by (rule mult_right_mono)
  have lhs: "sum_list (map wwidth seen) + (real (length seen) - 1 - real c) * s + (wwidth w + s)
      = sum_list (map wwidth (seen @ [w])) + (real (length seen) - real c) * s"
    by (simp add: algebra_simps)
  have le_tot: "sum_list (map wwidth (seen @ [w])) + (real (length seen) - real c) * s \<le> tot"
    unfolding tot using w1 w2 by linarith
  have "0 \<le> sum_list (map wwidth ?all)"
    using pos by (intro sum_list_nonneg) (auto simp: positive_widths_def less_imp_le)
  moreover have "0 \<le> (real (length ?all) - real n) * s"
    using n(2) s by simp
  ultimately have tot0: "0 \<le> tot" unfolding tot by linarith
  have npos: "0 < real n" using n(1) by simp
  have "tot = real n * (tot / real n)" using npos by simp
  also have "\<dots> \<le> (real c + 1) * (tot / real n)"
    using cn tot0 npos by (intro mult_right_mono) simp_all
  finally have "tot \<le> (real c + 1) * (tot / real n)" .
  with le_tot lhs show ?thesis by linarith
qed

lemma steps_agree:
  assumes inv: "pass2_inv s n (tot / real n) seen st"
    and pos: "positive_widths s (seen @ w # rest)"
    and n: "1 \<le> n" "n \<le> length (seen @ w # rest)"
    and tot: "tot = sum_list (map wwidth (seen @ w # rest))
                 + (real (length (seen @ w # rest)) - real n) * s"
  shows "createBalancedLines_step s n (tot / real n) m st w
       = assignLines_step s n (tot / real n) m st w"
proof (cases "seen = []")
  case True
  with inv show ?thesis
    by (simp add: pass2_inv_def createBalancedLines_step_def assignLines_step_def)
next
  case False
  let ?c = "length (lines st)"
  from inv False have lw: "0 < lineWidth st" and lwords: "lineWords st \<noteq> []"
    and c: "?c < length seen"
    and total: "totalTextWidth st =
        sum_list (map wwidth seen) + (real (length seen) - 1 - real ?c) * s"
    and cum: "cumAvgLineWidth st = (real ?c + 1) * (tot / real n)"
    and flag: "lastLine st = (if lines st = [] then n = 1 else ?c = n)"
    by (simp_all add: pass2_inv_def)
  let ?soft = "totalTextWidth st + (wwidth w + s) > cumAvgLineWidth st"
  have late: "\<not> ?soft" if "int n - 1 \<le> int ?c"
    using soft_test_false [OF pos n tot c that] total cum by simp
  have "(\<not> lastLine st \<and> ?soft) = (int ?c < int n - 1 \<and> ?soft)"
  proof (cases "int ?c < int n - 1")
    case True
    then have "\<not> lastLine st" using flag by (auto split: if_splits)
    with True show ?thesis by simp
  next
    case False
    then have "\<not> ?soft" using late by simp
    with False show ?thesis by simp
  qed
  with lw lwords show ?thesis
    by (simp add: createBalancedLines_step_def assignLines_step_def Let_def)
qed

lemma pass2_inv_step:
  assumes inv: "pass2_inv s n avg seen st" and s: "0 \<le> s" and w: "0 < wwidth w"
  shows "pass2_inv s n avg (seen @ [w]) (createBalancedLines_step s n avg m st w)"
proof (cases "seen = []")
  case True
  with inv have "lineWidth st = 0" "lineWords st = []" "lines st = []" "totalTextWidth st = 0"
    and rest: "cumAvgLineWidth st = (real (length (lines st)) + 1) * avg"
      "lastLine st = (if lines st = [] then n = 1 else length (lines st) = n)"
    by (simp_all add: pass2_inv_def)
  then have st: "createBalancedLines_step s n avg m st w = push_word (wwidth w) w st"
    by (simp add: createBalancedLines_step_def)
  show ?thesis
    unfolding st
    using rest \<open>lineWidth st = 0\<close> \<open>lines st = []\<close> \<open>totalTextWidth st = 0\<close> w True
    by (simp add: pass2_inv_def push_word_def)
next
  case False
  let ?c = "length (lines st)"
  from inv False have lw: "0 < lineWidth st" and c: "?c < length seen"
    and total: "totalTextWidth st =
        sum_list (map wwidth seen) + (real (length seen) - 1 - real ?c) * s"
    and cum: "cumAvgLineWidth st = (real ?c + 1) * avg"
    and flag: "lastLine st = (if lines st = [] then n = 1 else ?c = n)"
    by (simp_all add: pass2_inv_def)
  show ?thesis
  proof (cases "lineWidth st + (wwidth w + s) > m \<or>
      (\<not> lastLine st \<and> totalTextWidth st + (wwidth w + s) > cumAvgLineWidth st)")
    case True
    with lw have st: "createBalancedLines_step s n avg m st w
        = push_word (wwidth w) w (clear_line n avg st)"
      by (intro step_closing) simp_all
    have "totalTextWidth st + wwidth w =
        sum_list (map wwidth (seen @ [w]))
          + (real (length (seen @ [w])) - 1 - real (length (lines st @ [join_sp (lineWords st)]))) * s"
      using total by (simp add: algebra_simps)
    moreover have "cumAvgLineWidth st + avg =
        (real (length (lines st @ [join_sp (lineWords st)])) + 1) * avg"
      using cum by (simp add: algebra_simps)
    ultimately show ?thesis
      unfolding st using c w by (simp add: pass2_inv_def push_word_def clear_line_def)
  next
    case False
    with lw have st: "createBalancedLines_step s n avg m st w = push_word (wwidth w + s) w st"
      using step_keeping [where st = st and w = w and s = s and m = m and n = n and avg = avg]
      by simp
    have "totalTextWidth st + (wwidth w + s) =
        sum_list (map wwidth (seen @ [w]))
          + (real (length (seen @ [w])) - 1 - real ?c) * s"
      using total by (simp add: algebra_simps)
    moreover have "0 < lineWidth st + (wwidth w + s)" using lw s w by simp
    ultimately show ?thesis
      unfolding st using c cum flag by (simp add: pass2_inv_def push_word_def)
  qed
qed

lemma foldl_steps_agree:
  assumes "pass2_inv s n (tot / real n) seen st"
    and "positive_widths s (seen @ ws)"
    and "1 \<le> n" "n \<le> length (seen @ ws)"
    and "tot = sum_list (map wwidth (seen @ ws)) + (real (length (seen @ ws)) - real n) * s"
  shows "foldl (createBalancedLines_step s n (tot / real n) m) st ws
       = foldl (assignLines_step s n (tot / real n) m) st ws"
  using assms
proof (induction ws arbitrary: seen st)
  case Nil then show ?case by simp
next
  case (Cons w ws)
  have eq: "createBalancedLines_step s n (tot / real n) m st w
       = assignLines_step s n (tot / real n) m st w"
    using Cons.prems by (intro steps_agree [where rest = ws]) simp_all
  from Cons.prems(2) have s: "0 \<le> s" and w: "0 < wwidth w"
    by (simp_all add: positive_widths_def)
  have inv': "pass2_inv s n (tot / real n) (seen @ [w])
      (createBalancedLines_step s n (tot / real n) m st w)"
    using Cons.prems(1) s w by (rule pass2_inv_step)
  have "foldl (createBalancedLines_step s n (tot / real n) m)
          (createBalancedLines_step s n (tot / real n) m st w) ws
      = foldl (assignLines_step s n (tot / real n) m)
          (createBalancedLines_step s n (tot / real n) m st w) ws"
    using Cons.prems(2-) by (intro Cons.IH [OF inv']) simp_all
  then show ?case by (simp add: eq)
qed

text \<open>
  In exact arithmetic, with the line count and the average of pass 1 and words of
  positive width, \<open>createBalancedLines\<close> returns what the wording of the
  specification returns: the soft test is false from the \<open>(linesNeeded - 1)\<close>-th
  closed line on, so the value of the flag \<open>lastLine\<close> does not matter there.  In
  double arithmetic this is no longer so (claim C2).
\<close>

lemma createBalancedLines_eq_assignLines:
  assumes "positive_widths s words" and "calcAvgLineWidth words s m = (n, avg)"
  shows "createBalancedLines words s n avg m = assignLines words s n avg m"
proof (cases "words = []")
  case True
  then show ?thesis
    by (simp add: createBalancedLines_def createBalancedLines_loop_def assignLines_def)
next
  case False
  obtain lw tot n' where loop: "calcAvgLineWidth_loop words s m = (lw, tot, n')"
    by (cases "calcAvgLineWidth_loop words s m")
  with assms(2) have n': "n' = n" and avg: "avg = tot / real n"
    by (auto simp: calcAvgLineWidth_def)
  from pass1_total [OF assms(1) False loop] n'
  have n: "1 \<le> n" "n \<le> length words"
    and tot: "tot = sum_list (map wwidth words) + (real (length words) - real n) * s"
    by simp_all
  have init: "pass2_inv s n (tot / real n) [] (createBalancedLines_init n (tot / real n))"
    by (simp add: pass2_inv_def createBalancedLines_init_def)
  have "foldl (createBalancedLines_step s n (tot / real n) m)
          (createBalancedLines_init n (tot / real n)) words
      = foldl (assignLines_step s n (tot / real n) m)
          (createBalancedLines_init n (tot / real n)) words"
    using assms(1) n tot by (intro foldl_steps_agree [OF init]) simp_all
  then show ?thesis
    by (simp add: createBalancedLines_def createBalancedLines_loop_def assignLines_def avg)
qed

subsection \<open>Truncation and rounding\<close>





subsection \<open>The caption height\<close>





lemma canvasHeight_caption_layout_square:
  "canvasHeight (caption_layout_square opts iw ih lns) =
     comicHeight_of opts iw ih + 2 * outerPadding opts + captionHeight opts lns"
  by (simp add: caption_layout_square_def squareAdjust_def Let_def split: prod.splits)

lemma canvasWidth_caption_layout_square:
  "canvasWidth (caption_layout_square opts iw ih lns) =
     fst (squareAdjust (resizeComicWidth opts + 2 * outerPadding opts,
       comicHeight_of opts iw ih + 2 * outerPadding opts + captionHeight opts lns))"
  by (simp add: caption_layout_square_def Let_def split: prod.splits)




subsection \<open>Evaluating the rounding\<close>

text \<open>The search for the binade, unfolded one step for a literal amount of fuel.\<close>

lemma binade_numeral:
  "binade (numeral k) a =
     (if 2 \<le> a then binade (pred_numeral k) (a / 2) + 1
      else if a < 1 then binade (pred_numeral k) (a * 2) - 1
      else 0)"
  by (simp add: numeral_eq_Suc)

lemma double_examples:
  "double 0 = 0" "double 85 = 85" "double (1 / 10) = 3602879701896397 / 2 ^ 55"
  "double (395 / 6) = 4632608991696213 / 2 ^ 46" "double (- (5 / 2)) = - (5 / 2)"
  by (simp_all add: double_def pow2_def round_even_def binade_numeral Let_def)

subsection \<open>The rounded passes without rounding\<close>

text \<open>With the identity for \<open>rnd\<close> the rounded passes are the exact ones.\<close>

lemma calcAvgLineWidth_step_fp_exact:
  "calcAvgLineWidth_step_fp (\<lambda>x. x) s m st w = calcAvgLineWidth_step s m st w"
  by (cases st) (simp add: calcAvgLineWidth_step_fp_def calcAvgLineWidth_step_def Let_def)

lemma calcAvgLineWidth_fp_exact:
  "calcAvgLineWidth_fp (\<lambda>x. x) words s m = calcAvgLineWidth words s m"
proof -
  have "calcAvgLineWidth_step_fp (\<lambda>x. x) s m = calcAvgLineWidth_step s m"
    by (intro ext) (rule calcAvgLineWidth_step_fp_exact)
  then show ?thesis
    by (simp add: calcAvgLineWidth_fp_def calcAvgLineWidth_def calcAvgLineWidth_loop_def)
qed

lemma createBalancedLines_step_fp_exact:
  "createBalancedLines_step_fp (\<lambda>x. x) s n avg m st w = createBalancedLines_step s n avg m st w"
  by (simp add: createBalancedLines_step_fp_def createBalancedLines_step_def
      push_word_fp_def push_word_def clear_line_fp_def clear_line_def Let_def)

lemma createBalancedLines_fp_exact:
  "createBalancedLines_fp (\<lambda>x. x) words s n avg m = createBalancedLines words s n avg m"
proof -
  have "createBalancedLines_step_fp (\<lambda>x. x) s n avg m = createBalancedLines_step s n avg m"
    by (intro ext) (rule createBalancedLines_step_fp_exact)
  then show ?thesis
    by (simp add: createBalancedLines_fp_def createBalancedLines_loop_fp_def
        createBalancedLines_def createBalancedLines_loop_def)
qed

lemma assignLines_step_fp_exact:
  "assignLines_step_fp (\<lambda>x. x) s n avg m st w = assignLines_step s n avg m st w"
  by (simp add: assignLines_step_fp_def assignLines_step_def
      push_word_fp_def push_word_def clear_line_fp_def clear_line_def Let_def)

lemma assignLines_fp_exact:
  "assignLines_fp (\<lambda>x. x) words s n avg m = assignLines words s n avg m"
proof -
  have "assignLines_step_fp (\<lambda>x. x) s n avg m = assignLines_step s n avg m"
    by (intro ext) (rule assignLines_step_fp_exact)
  then show ?thesis
    by (simp add: assignLines_fp_def assignLines_def)
qed


section \<open>The claims\<close>

subsection \<open>Claim C1\<close>

text \<open>
  C1.  For every non-empty sequence of measured words (the texts being tokens of a
  caption: free of white space, and empty at most at the two ends, as
  \<open>split(/\s+/)\<close> yields them), \<open>createBalancedLines\<close> returns a non-empty
  sequence of lines; joining the lines with single spaces and splitting the result on
  white space gives back exactly the word texts in their order; and splitting each
  line by itself gives the same words, so every word stands in exactly one line.  This
  holds for every \<open>linesNeeded\<close> and \<open>avgLineWidth\<close>, in particular for the pair
  that pass 1 computes.  By \<open>tokens_ok_split_ws\<close> the words of every caption meet
  the hypothesis.
\<close>

theorem createBalancedLines_keeps_words:
  assumes "words \<noteq> []" and "tokens_ok (map wtext words)"
  shows "createBalancedLines words s n avg m \<noteq> []
    \<and> split_ws (join_sp (createBalancedLines words s n avg m)) = map wtext words
    \<and> concat (map split_ws (createBalancedLines words s n avg m)) = map wtext words
    \<and> balance words s m \<noteq> []
    \<and> split_ws (join_sp (balance words s m)) = map wtext words"
proof -
  have core: "createBalancedLines words s n avg m \<noteq> []
    \<and> split_ws (join_sp (createBalancedLines words s n avg m)) = map wtext words
    \<and> concat (map split_ws (createBalancedLines words s n avg m)) = map wtext words"
    for n avg
  proof -
    obtain gs where ls: "createBalancedLines words s n avg m = map line_text gs"
      and cc: "concat gs = words" and ne: "[] \<notin> set gs"
      using createBalancedLines_groups [of words s n avg m] by blast
    let ?ts = "map (map wtext) gs"
    have ls': "createBalancedLines words s n avg m = map join_sp ?ts"
      using ls by (simp add: line_text_def [abs_def] comp_def)
    have cc': "concat ?ts = map wtext words"
      using cc by (simp add: map_concat [symmetric])
    have ne': "[] \<notin> set ?ts" using ne by auto
    have "gs \<noteq> []" using cc assms(1) by auto
    then have nonempty: "createBalancedLines words s n avg m \<noteq> []" using ls by simp
    have "join_sp (createBalancedLines words s n avg m) = join_sp (map wtext words)"
      using join_sp_concat [OF ne'] ls' cc' by simp
    then have whole: "split_ws (join_sp (createBalancedLines words s n avg m)) = map wtext words"
      using assms(2) by (simp add: split_ws_join)
    have each: "split_ws (join_sp g) = g" if "g \<in> set ?ts" for g
    proof -
      from that ne' have "g \<noteq> []" by auto
      with that assms(2) cc' have "tokens_ok g"
        using tokens_ok_group [of ?ts g] by simp
      then show ?thesis by (rule split_ws_join)
    qed
    have "map split_ws (map join_sp ?ts) = ?ts"
      by (rule map_split_ws_join_sp) (rule each)
    then have "concat (map split_ws (createBalancedLines words s n avg m)) = map wtext words"
      by (simp only: ls' cc')
    with nonempty whole show ?thesis by simp
  qed
  obtain n' avg' where p1: "calcAvgLineWidth words s m = (n', avg')"
    by (cases "calcAvgLineWidth words s m")
  then have "balance words s m = createBalancedLines words s n' avg' m"
    by (simp add: balance_def)
  with core [of n avg] core [of n' avg'] show ?thesis by simp
qed

theorem createBalancedLines_keeps_words_witness:
  "split_ws (join_sp (balance six_words 10 150)) =
     [''one'', ''two'', ''three'', ''four'', ''five'', ''six'']
   \<and> concat (map split_ws (createBalancedLines six_words 10 2 140 150)) =
     [''one'', ''two'', ''three'', ''four'', ''five'', ''six'']"
proof -
  have ne: "six_words \<noteq> []" by (simp add: six_words_def)
  have ok: "tokens_ok (map wtext six_words)"
    by (simp add: six_words_def tokens_ok_def ws_free_def is_ws_def)
  show ?thesis
    using createBalancedLines_keeps_words [OF ne ok, of 10 2 140 150]
    by (simp add: six_words_def)
qed

subsection \<open>Claim C2\<close>

text \<open>
  C2, the code at the failing input, in the arithmetic of the code.  The words
  \<open>a\<close> .. \<open>g\<close> have the widths 85, 75, 65, 60, 40, 35 and 30, the space width is 5 and
  \<open>maxTextWidth = 100\<close>.  Pass 1 returns \<open>linesNeeded = 6\<close> and the average
  \<open>395 / 6\<close> rounded to a double.  When \<open>g\<close> is considered in pass 2, five lines are
  closed and the current line holds \<open>f\<close>, of width 35.  Neither condition of the
  claim holds: (a) 35 + 35 = 70 does not exceed 100, and (b) 5 < 6 - 1 is false, this
  being the last line.  By the rule of the claim the last line takes \<open>g\<close>: six lines,
  the last \<open>f g\<close>.  The code has set the flag by \<open>lines.length === linesNeeded\<close>,
  that is \<open>5 === 6\<close>, false, one line later than the initial value
  \<open>linesNeeded === 1\<close> of the flag and the comment \<open>Ignore "cumulative average
  line width" for last line\<close> say.  So the soft test is made on the last line, and
  it holds: the total 360 + 35 = 395 exceeds the average added up six times, which in
  doubles is \<open>395 - 2^-44\<close>.  The code closes the line and returns seven lines, \<open>g\<close>
  alone on the last.  In exact arithmetic the sum is 395 and the slip does not show
  on this input.

  The slip also shows without any rounding on a word of width 0: for \<open>a\<close> (50),
  \<open>c\<close> (10), a zero-width space (0) and \<open>b\<close> (5), space width 4 and
  \<open>maxTextWidth = 66\<close>, pass 1 returns \<open>(2, 34.5)\<close>; at \<open>b\<close> one line is closed, the
  flag is \<open>1 === 2\<close>, false, and 64 + 9 = 73 exceeds 69: three lines, where the rule of
  the claim gives two.
\<close>

theorem lastLine_flag_failing_input:
  "calcAvgLineWidth_fp double seven_words 5 100 = (6, 4632608991696213 / 2 ^ 46)
   \<and> length (lines (createBalancedLines_loop_fp double (take 6 seven_words) 5 6
          (4632608991696213 / 2 ^ 46) 100)) = 5
   \<and> lineWords (createBalancedLines_loop_fp double (take 6 seven_words) 5 6
          (4632608991696213 / 2 ^ 46) 100) = [''f'']
   \<and> lineWidth (createBalancedLines_loop_fp double (take 6 seven_words) 5 6
          (4632608991696213 / 2 ^ 46) 100) = 35
   \<and> totalTextWidth (createBalancedLines_loop_fp double (take 6 seven_words) 5 6
          (4632608991696213 / 2 ^ 46) 100) = 360
   \<and> lastLine (createBalancedLines_loop_fp double (take 6 seven_words) 5 6
          (4632608991696213 / 2 ^ 46) 100) = False
   \<and> cumAvgLineWidth (createBalancedLines_loop_fp double (take 6 seven_words) 5 6
          (4632608991696213 / 2 ^ 46) 100) = 395 - 1 / 2 ^ 44
   \<and> balance_fp double seven_words 5 100 = [''a'', ''b'', ''c'', ''d'', ''e'', ''f'', ''g'']
   \<and> assignLines_fp double seven_words 5 6 (4632608991696213 / 2 ^ 46) 100
        = [''a'', ''b'', ''c'', ''d'', ''e'', ''f g'']
   \<and> balance seven_words 5 100 = [''a'', ''b'', ''c'', ''d'', ''e'', ''f g'']
   \<and> calcAvgLineWidth_fp double zero_width_words 4 66 = (2, 69 / 2)
   \<and> balance_fp double zero_width_words 4 66 = [''a'', ''c '' @ zero_width_space, ''b'']
   \<and> assignLines_fp double zero_width_words 4 2 (69 / 2) 66
        = [''a'', ''c '' @ zero_width_space @ '' b'']
   \<and> balance zero_width_words 4 66 = [''a'', ''c '' @ zero_width_space, ''b'']
   \<and> assignLines zero_width_words 4 2 (69 / 2) 66 = [''a'', ''c '' @ zero_width_space @ '' b'']"
proof -
  let ?avg = "4632608991696213 / 2 ^ 46 :: real"
  let ?st = "createBalancedLines_loop_fp double (take 6 seven_words) 5 6 ?avg 100"
  have p1: "calcAvgLineWidth_fp double seven_words 5 100 = (6, ?avg)"
    by (simp add: seven_words_def calcAvgLineWidth_fp_def calcAvgLineWidth_step_fp_def
        double_def pow2_def round_even_def binade_numeral Let_def)
  have st: "?st =
        \<lparr> lines = [''a'', ''b'', ''c'', ''d'', ''e''], totalTextWidth = 360,
          lineWords = [''f''], lineWidth = 35, cumAvgLineWidth = 395 - 1 / 2 ^ 44,
          lastLine = False \<rparr>"
    by (simp add: seven_words_def createBalancedLines_loop_fp_def
        createBalancedLines_step_fp_def createBalancedLines_init_def push_word_fp_def
        clear_line_fp_def double_def pow2_def round_even_def binade_numeral Let_def)
  have s1: "length (lines ?st) = 5" and s2: "lineWords ?st = [''f'']"
    and s3: "lineWidth ?st = 35" and s4: "totalTextWidth ?st = 360"
    and s5: "lastLine ?st = False" and s6: "cumAvgLineWidth ?st = 395 - 1 / 2 ^ 44"
    unfolding st by simp_all
  have last: "seven_words = take 6 seven_words @ [\<lparr> wtext = ''g'', wwidth = 30 \<rparr>]"
    by (simp add: seven_words_def)
  have "createBalancedLines_loop_fp double seven_words 5 6 ?avg 100 =
      createBalancedLines_loop_fp double
        (take 6 seven_words @ [\<lparr> wtext = ''g'', wwidth = 30 \<rparr>]) 5 6 ?avg 100"
    by (rule arg_cong [where f = "\<lambda>ws. createBalancedLines_loop_fp double ws 5 6 ?avg 100"])
      (rule last)
  also have "\<dots> = createBalancedLines_step_fp double 5 6 ?avg 100 ?st
      \<lparr> wtext = ''g'', wwidth = 30 \<rparr>"
    by (simp only: createBalancedLines_loop_fp_def foldl_append foldl.simps)
  also have "\<dots> =
        \<lparr> lines = [''a'', ''b'', ''c'', ''d'', ''e'', ''f''], totalTextWidth = 390,
          lineWords = [''g''], lineWidth = 30, cumAvgLineWidth = double (395 - 1 / 2 ^ 44 + ?avg),
          lastLine = True \<rparr>"
    unfolding st
    by (simp add: createBalancedLines_step_fp_def push_word_fp_def clear_line_fp_def
        double_def [of 35] double_def [of 30] double_def [of 70] double_def [of 395]
        double_def [of 390]
        pow2_def round_even_def binade_numeral Let_def)
  finally have code: "createBalancedLines_fp double seven_words 5 6 ?avg 100
      = [''a'', ''b'', ''c'', ''d'', ''e'', ''f'', ''g'']"
    by (simp add: createBalancedLines_fp_def)
  have rule: "assignLines_fp double seven_words 5 6 ?avg 100
      = [''a'', ''b'', ''c'', ''d'', ''e'', ''f g'']"
    by (simp add: seven_words_def assignLines_fp_def assignLines_step_fp_def
        createBalancedLines_init_def push_word_fp_def clear_line_fp_def
        double_def pow2_def round_even_def binade_numeral Let_def)
  have exact: "balance seven_words 5 100 = [''a'', ''b'', ''c'', ''d'', ''e'', ''f g'']"
    by (simp add: seven_words_def balance_def calcAvgLineWidth_def calcAvgLineWidth_loop_def
        calcAvgLineWidth_step_def createBalancedLines_def createBalancedLines_loop_def
        createBalancedLines_step_def createBalancedLines_init_def push_word_def
        clear_line_def Let_def)
  have z1: "calcAvgLineWidth_fp double zero_width_words 4 66 = (2, 69 / 2)"
    by (simp add: zero_width_words_def calcAvgLineWidth_fp_def calcAvgLineWidth_step_fp_def
        double_def pow2_def round_even_def binade_numeral Let_def)
  have z2: "createBalancedLines_fp double zero_width_words 4 2 (69 / 2) 66
      = [''a'', ''c '' @ zero_width_space, ''b'']"
    by (simp add: zero_width_words_def zero_width_space_def createBalancedLines_fp_def
        createBalancedLines_loop_fp_def createBalancedLines_step_fp_def
        createBalancedLines_init_def push_word_fp_def clear_line_fp_def
        double_def pow2_def round_even_def binade_numeral Let_def)
  have z3: "assignLines_fp double zero_width_words 4 2 (69 / 2) 66
      = [''a'', ''c '' @ zero_width_space @ '' b'']"
    by (simp add: zero_width_words_def zero_width_space_def assignLines_fp_def
        assignLines_step_fp_def createBalancedLines_init_def push_word_fp_def
        clear_line_fp_def double_def pow2_def round_even_def binade_numeral Let_def)
  have z4: "balance zero_width_words 4 66 = [''a'', ''c '' @ zero_width_space, ''b'']"
    by (simp add: zero_width_words_def zero_width_space_def balance_def calcAvgLineWidth_def
        calcAvgLineWidth_loop_def calcAvgLineWidth_step_def createBalancedLines_def
        createBalancedLines_loop_def createBalancedLines_step_def createBalancedLines_init_def
        push_word_def clear_line_def Let_def)
  have z5: "assignLines zero_width_words 4 2 (69 / 2) 66
      = [''a'', ''c '' @ zero_width_space @ '' b'']"
    by (simp add: zero_width_words_def zero_width_space_def assignLines_def
        assignLines_step_def createBalancedLines_init_def push_word_def clear_line_def Let_def)
  have b7: "balance_fp double seven_words 5 100 = [''a'', ''b'', ''c'', ''d'', ''e'', ''f'', ''g'']"
    by (simp only: balance_fp_def p1 prod.case code)
  have bz: "balance_fp double zero_width_words 4 66 = [''a'', ''c '' @ zero_width_space, ''b'']"
    by (simp only: balance_fp_def z1 prod.case z2)
  from p1 s1 s2 s3 s4 s5 s6 b7 rule exact z1 bz z3 z4 z5 show ?thesis
    by blast
qed

subsection \<open>Claim C3\<close>




subsection \<open>Claim C4\<close>

text \<open>
  C4.  A word wider than \<open>maxTextWidth\<close> is placed by both passes.  Pass 1 counts
  its full width in \<open>totalTextWidth\<close> (the total is the sum of all word widths plus
  a number of space widths), and the lines of pass 2 are the texts of consecutive
  non-empty groups of the words, one of which holds the wide word; neither function
  has an error branch.  For a single over-wide word, pass 1 returns
  \<open>(1, width)\<close> and the result is the one line made of that word, whose width
  exceeds \<open>maxTextWidth\<close>.
\<close>

theorem overwide_word_is_placed:
  assumes "w \<in> set words" and "m < wwidth w"
  shows "(\<exists>k::nat. k \<le> length words - 1
           \<and> fst (snd (calcAvgLineWidth_loop words s m)) = sum_list (map wwidth words) + real k * s)
    \<and> (\<exists>gs. balance words s m = map line_text gs \<and> concat gs = words \<and> [] \<notin> set gs
           \<and> (\<exists>g \<in> set gs. w \<in> set g))
    \<and> calcAvgLineWidth [w] s m = (1, wwidth w)
    \<and> balance [w] s m = [wtext w]
    \<and> m < line_width s [w]"
proof -
  obtain n avg where p1: "calcAvgLineWidth words s m = (n, avg)"
    by (cases "calcAvgLineWidth words s m")
  obtain gs where ls: "createBalancedLines words s n avg m = map line_text gs"
    and cc: "concat gs = words" and ne: "[] \<notin> set gs"
    using createBalancedLines_groups [of words s n avg m] by blast
  from assms(1) cc have "\<exists>g \<in> set gs. w \<in> set g" by auto
  with ls cc ne p1 have groups: "\<exists>gs. balance words s m = map line_text gs \<and> concat gs = words
      \<and> [] \<notin> set gs \<and> (\<exists>g \<in> set gs. w \<in> set g)"
    by (auto simp: balance_def)
  have single1: "calcAvgLineWidth [w] s m = (1, wwidth w)"
    by (simp add: calcAvgLineWidth_def calcAvgLineWidth_loop_def calcAvgLineWidth_step_def Let_def)
  have single2: "balance [w] s m = [wtext w]"
    by (simp add: balance_def single1 createBalancedLines_def createBalancedLines_loop_def
        createBalancedLines_step_def createBalancedLines_init_def push_word_def Let_def)
  from calcAvgLineWidth_loop_counted [of words s m] groups single1 single2 assms(2)
  show ?thesis by (simp add: line_width_single)
qed

theorem overwide_word_is_placed_witness:
  "balance overwide_words 5 100 = [''a'', ''Llanfairpwllgwyngyll'', ''b'']
   \<and> (\<exists>gs. balance overwide_words 5 100 = map line_text gs \<and> concat gs = overwide_words
         \<and> list_ex (\<lambda>g. \<lparr> wtext = ''Llanfairpwllgwyngyll'', wwidth = 200 \<rparr> \<in> set g) gs)
   \<and> balance [\<lparr> wtext = ''Llanfairpwllgwyngyll'', wwidth = 200 \<rparr>] 5 100
        = [''Llanfairpwllgwyngyll'']"
proof -
  let ?w = "\<lparr> wtext = ''Llanfairpwllgwyngyll'', wwidth = 200 \<rparr>"
  have mem: "?w \<in> set overwide_words" by (simp add: overwide_words_def)
  have wide: "(100::real) < wwidth ?w" by simp
  have ev: "balance overwide_words 5 100 = [''a'', ''Llanfairpwllgwyngyll'', ''b'']"
    by (simp add: overwide_words_def balance_def calcAvgLineWidth_def
        calcAvgLineWidth_loop_def calcAvgLineWidth_step_def createBalancedLines_def
        createBalancedLines_loop_def createBalancedLines_step_def createBalancedLines_init_def
        push_word_def clear_line_def Let_def)
  from overwide_word_is_placed [OF mem wide, of 5]
  obtain gs where gs: "balance overwide_words 5 100 = map line_text gs"
      "concat gs = overwide_words" "\<exists>g \<in> set gs. ?w \<in> set g"
    and single: "balance [?w] 5 100 = [wtext ?w]"
    by blast
  from gs(3) have "list_ex (\<lambda>g. ?w \<in> set g) gs" by (simp add: list_ex_iff)
  with gs(1,2) have ex: "\<exists>gs. balance overwide_words 5 100 = map line_text gs
      \<and> concat gs = overwide_words \<and> list_ex (\<lambda>g. ?w \<in> set g) gs"
    by blast
  from single have "balance [?w] 5 100 = [''Llanfairpwllgwyngyll'']" by simp
  with ev ex show ?thesis by blast
qed

subsection \<open>Claim C5\<close>

text \<open>
  C5, the claim as stated fails: for the empty word sequence the two passes return a
  result, the empty sequence of lines, and no \<open>InvalidInput\<close> condition.
\<close>

theorem empty_words_counterexample:
  "balance_outcome [] 10 150 \<noteq> Inl InvalidInput \<and> balance_outcome [] 10 150 = Inr []"
  by (simp add: balance_outcome_def balance_def calcAvgLineWidth_def calcAvgLineWidth_loop_def
      createBalancedLines_def createBalancedLines_loop_def createBalancedLines_init_def)

text \<open>
  C5 as amended.  For the empty word sequence no error is raised: pass 1 returns
  \<open>(1, 0)\<close>, pass 2 returns the empty sequence of lines for every \<open>linesNeeded\<close> and
  \<open>avgLineWidth\<close>, and so does their composition.  The callers never pass the empty
  sequence: the empty caption splits into one empty word, for which the result is one
  empty line.
\<close>

theorem empty_words_return_no_lines:
  "calcAvgLineWidth [] s m = (1, 0)
   \<and> createBalancedLines [] s n avg m = []
   \<and> balance_outcome [] s m = Inr []
   \<and> split_ws '''' = ['''']
   \<and> balance_outcome [\<lparr> wtext = '''', wwidth = x \<rparr>] s m = Inr ['''']"
  by (simp add: balance_outcome_def balance_def calcAvgLineWidth_def calcAvgLineWidth_loop_def
      calcAvgLineWidth_step_def createBalancedLines_def createBalancedLines_loop_def
      createBalancedLines_step_def createBalancedLines_init_def push_word_def split_ws.simps)

subsection \<open>Claim C6\<close>

text \<open>
  C6.  In the canvas copy with the square step, the step leaves the canvas height as it
  is and never decreases the canvas width; the width changes only when
  \<open>canvasWidth < canvasHeight\<close> and \<open>canvasHeight / canvasWidth \<le> 1.75\<close>, and it is
  then set to the canvas height; when that test holds the canvas becomes a square, and
  otherwise the canvas is unchanged.  (\<open>w0\<close> is the width and \<open>h1\<close> the height of the
  canvas before the step.)
\<close>

theorem square_adjustment:
  fixes opts :: caption_opts and iw ih :: int and lns :: "text_line list"
  defines "w0 \<equiv> resizeComicWidth opts + 2 * outerPadding opts"
  defines "h1 \<equiv> comicHeight_of opts iw ih + 2 * outerPadding opts + captionHeight opts lns"
  defines "plan \<equiv> caption_layout_square opts iw ih lns"
  shows "canvasHeight plan = h1
    \<and> w0 \<le> canvasWidth plan
    \<and> (canvasWidth plan \<noteq> w0 \<longrightarrow>
          w0 < h1 \<and> w0 \<noteq> 0 \<and> real_of_int h1 / real_of_int w0 \<le> 175 / 100 \<and> canvasWidth plan = h1)
    \<and> (w0 < h1 \<and> w0 \<noteq> 0 \<and> real_of_int h1 / real_of_int w0 \<le> 175 / 100 \<longrightarrow>
          canvasWidth plan = h1 \<and> canvasWidth plan = canvasHeight plan)
    \<and> (\<not> (w0 < h1 \<and> real_of_int h1 / real_of_int w0 \<le> 175 / 100) \<longrightarrow> canvasWidth plan = w0)
    \<and> squareAdjust (w0, h1) = (canvasWidth plan, canvasHeight plan)"
proof -
  have ch: "canvasHeight plan = h1"
    by (simp add: plan_def h1_def canvasHeight_caption_layout_square)
  have cw: "canvasWidth plan = fst (squareAdjust (w0, h1))"
    by (simp add: plan_def w0_def h1_def canvasWidth_caption_layout_square)
  show ?thesis
  proof (cases "w0 < h1 \<and> w0 \<noteq> 0 \<and> real_of_int h1 / real_of_int w0 \<le> 175 / 100")
    case True
    then have "squareAdjust (w0, h1) = (h1, h1)" by (simp add: squareAdjust_def)
    with True ch cw show ?thesis by simp
  next
    case False
    then have "squareAdjust (w0, h1) = (w0, h1)" by (simp add: squareAdjust_def)
    with False ch cw show ?thesis by auto
  qed
qed

theorem square_adjustment_witness:
  "canvasWidth (caption_layout_square default_opts 600 700
       [line_of_height 24, line_of_height 24, line_of_height 24]) = 832
   \<and> canvasHeight (caption_layout_square default_opts 600 700
       [line_of_height 24, line_of_height 24, line_of_height 24]) = 832
   \<and> canvasWidth (caption_layout_square default_opts 600 1200
       [line_of_height 24, line_of_height 24, line_of_height 24]) = 632
   \<and> canvasHeight (caption_layout_square default_opts 600 1200
       [line_of_height 24, line_of_height 24, line_of_height 24]) = 1332"
proof -
  let ?lns = "[line_of_height 24, line_of_height 24, line_of_height 24]"
  have ch: "captionHeight default_opts ?lns = 100"
    by (simp add: captionHeight_def default_opts_def line_of_height_def)
  have c1: "comicHeight_of default_opts 600 700 = 700"
    by (simp add: comicHeight_of_def default_opts_def toInt32_def js_trunc_def)
  have c2: "comicHeight_of default_opts 600 1200 = 1200"
    by (simp add: comicHeight_of_def default_opts_def toInt32_def js_trunc_def)
  have o: "resizeComicWidth default_opts = 600" "outerPadding default_opts = 16"
    by (simp_all add: default_opts_def)
  have w0: "resizeComicWidth default_opts + 2 * outerPadding default_opts = 632"
    by (simp add: o)
  have h1: "comicHeight_of default_opts 600 700 + 2 * outerPadding default_opts
      + captionHeight default_opts ?lns = 832"
    by (simp add: o ch c1)
  have h2: "comicHeight_of default_opts 600 1200 + 2 * outerPadding default_opts
      + captionHeight default_opts ?lns = 1332"
    by (simp add: o ch c2)
  note t1 = square_adjustment [of default_opts 600 700 ?lns, unfolded w0 h1]
  note t2 = square_adjustment [of default_opts 600 1200 ?lns, unfolded w0 h2]
  have r1: "(632::int) < 832 \<and> (632::int) \<noteq> 0 \<and> real_of_int 832 / real_of_int 632 \<le> 175 / 100"
    by simp
  have r2: "\<not> ((632::int) < 1332 \<and> real_of_int 1332 / real_of_int 632 \<le> 175 / 100)"
    by simp
  from t1 r1 have a: "canvasWidth (caption_layout_square default_opts 600 700 ?lns) = 832"
    and b: "canvasHeight (caption_layout_square default_opts 600 700 ?lns) = 832"
    by blast+
  from t2 r2 have c: "canvasWidth (caption_layout_square default_opts 600 1200 ?lns) = 632"
    and d: "canvasHeight (caption_layout_square default_opts 600 1200 ?lns) = 1332"
    by blast+
  from a b c d show ?thesis by blast
qed

subsection \<open>Claim C7\<close>

text \<open>
  C7.  Six words \<open>one\<close> .. \<open>six\<close> of width 40, space width 10, \<open>maxTextWidth = 150\<close>:
  pass 1 has a line of width 140 after three words (140 \<le> 150), the fourth word
  would make 190 > 150 and opens the second line, and the result is
  \<open>linesNeeded = 2\<close> with average 140.  Pass 2 then returns the two lines
  \<open>one two three\<close> and \<open>four five six\<close>; the line width accumulated in the loop is
  140 after the third word and 140 again at the end.
\<close>

theorem six_words_example:
  "calcAvgLineWidth_loop (take 3 six_words) 10 150 = (140, 140, 1)
   \<and> (140::real) \<le> 150 \<and> (140::real) + 10 + 40 = 190 \<and> (190::real) > 150
   \<and> calcAvgLineWidth_loop (take 4 six_words) 10 150 = (40, 180, 2)
   \<and> calcAvgLineWidth six_words 10 150 = (2, 140)
   \<and> createBalancedLines six_words 10 2 140 150 = [''one two three'', ''four five six'']
   \<and> balance six_words 10 150 = [''one two three'', ''four five six'']
   \<and> lineWidth (createBalancedLines_loop (take 3 six_words) 10 2 140 150) = 140
   \<and> lineWidth (createBalancedLines_loop six_words 10 2 140 150) = 140
   \<and> map (line_width 10) [take 3 six_words, drop 3 six_words] = [140, 140]"
  by (simp add: six_words_def balance_def calcAvgLineWidth_def
      calcAvgLineWidth_loop_def calcAvgLineWidth_step_def createBalancedLines_def
      createBalancedLines_loop_def createBalancedLines_step_def createBalancedLines_init_def
      push_word_def clear_line_def line_width_def Let_def)

subsection \<open>Claim C8\<close>

text \<open>
  C8.  With \<open>resizeComicWidth = 600\<close>, an image of 1200 by 800, \<open>outerPadding = 20\<close>,
  \<open>captionMarginTop = 25\<close> and one line of height 20 (any text, any width, any line
  spacing): the scaled image height is 400, the canvas before the text is 640 by 440,
  the text block is 45 high, the final canvas is 640 by 485, the image rectangle is
  (20, 20, 600, 400) and the line is drawn at y = 445, centred at x = (640 - width) / 2.
  The copy with the square step gives the same canvas and image rectangle.
\<close>

theorem layout_example:
  fixes ms ls w :: real and t :: string
  defines "opts \<equiv> \<lparr> captionMarginSides = ms, captionMarginTop = 25, lineSpacing = ls,
     outerPadding = 20, resizeComicWidth = 600 \<rparr>"
  defines "line \<equiv> \<lparr> ltext = t, lwidth = w, lheight = 20 \<rparr>"
  shows "comicHeight_of opts 1200 800 = 400
    \<and> resizeComicWidth opts + 2 * outerPadding opts = 640
    \<and> comicHeight_of opts 1200 800 + 2 * outerPadding opts = 440
    \<and> captionHeight opts [line] = 45
    \<and> caption_layout opts 1200 800 [line] =
        \<lparr> canvasWidth = 640, canvasHeight = 485, imageRect = (20, 20, 600, 400),
          linePositions = [\<lparr> ptext = t, px = (640 - w) / 2, py = 445 \<rparr>] \<rparr>
    \<and> canvasWidth (caption_layout_square opts 1200 800 [line]) = 640
    \<and> canvasHeight (caption_layout_square opts 1200 800 [line]) = 485
    \<and> imageRect (caption_layout_square opts 1200 800 [line]) = (20, 20, 600, 400)
    \<and> caption_plain fixed_pitch opts 1200 800 ''hello'' =
        \<lparr> canvasWidth = 640, canvasHeight = 485, imageRect = (20, 20, 600, 400),
          linePositions = [\<lparr> ptext = ''hello'', px = 295, py = 445 \<rparr>] \<rparr>"
proof -
  have ch: "comicHeight_of opts 1200 800 = 400"
    by (simp add: comicHeight_of_def opts_def toInt32_def js_trunc_def)
  have cap: "captionHeight opts [line] = 45"
    by (simp add: captionHeight_def opts_def line_def)
  have o: "resizeComicWidth opts = 600" "outerPadding opts = 20" "captionMarginTop opts = 25"
    "lineSpacing opts = ls" "captionMarginSides opts = ms"
    by (simp_all add: opts_def)
  have lay: "caption_layout opts 1200 800 [line] =
        \<lparr> canvasWidth = 640, canvasHeight = 485, imageRect = (20, 20, 600, 400),
          linePositions = [\<lparr> ptext = t, px = (640 - w) / 2, py = 445 \<rparr>] \<rparr>"
    by (simp add: caption_layout_def ch cap o Let_def) (simp add: line_def)
  have sq: "squareAdjust (640, 485) = (640, 485)"
    by (simp add: squareAdjust_def)
  have sqw: "canvasWidth (caption_layout_square opts 1200 800 [line]) = 640"
    by (simp add: canvasWidth_caption_layout_square ch cap o sq)
  have sqh: "canvasHeight (caption_layout_square opts 1200 800 [line]) = 485"
    by (simp add: canvasHeight_caption_layout_square ch cap o)
  have sqr: "imageRect (caption_layout_square opts 1200 800 [line]) = (20, 20, 600, 400)"
    by (simp add: caption_layout_square_def ch cap o sq Let_def toInt32_def js_trunc_def)
  have hello: "split_ws ''hello'' = [''hello'']"
    by (simp add: split_ws.simps is_ws_def)
  have lines: "caption_lines fixed_pitch ''hello'' (real_of_int 1200 - ms * 2) =
      [\<lparr> ltext = ''hello'', lwidth = 50, lheight = 20 \<rparr>]"
    by (simp add: caption_lines_def hello fixed_pitch_def balance_def calcAvgLineWidth_def
        calcAvgLineWidth_loop_def calcAvgLineWidth_step_def createBalancedLines_def
        createBalancedLines_loop_def createBalancedLines_step_def createBalancedLines_init_def
        push_word_def Let_def)
  have cap': "captionHeight opts [\<lparr> ltext = ''hello'', lwidth = 50, lheight = 20 \<rparr>] = 45"
    by (simp add: captionHeight_def opts_def)
  have plain: "caption_plain fixed_pitch opts 1200 800 ''hello'' =
        \<lparr> canvasWidth = 640, canvasHeight = 485, imageRect = (20, 20, 600, 400),
          linePositions = [\<lparr> ptext = ''hello'', px = 295, py = 445 \<rparr>] \<rparr>"
    unfolding caption_plain_def o lines
    by (simp add: caption_layout_def ch cap' o Let_def)
  from ch cap lay sqw sqh sqr plain o show ?thesis by simp
qed

subsection \<open>Claim C9\<close>




subsection \<open>Claim C10\<close>

text \<open>
  C10.  For every word sequence, the empty one included, \<open>calcAvgLineWidth\<close> returns
  \<open>linesNeeded \<ge> 1\<close>, so the divisor of \<open>totalTextWidth / linesNeeded\<close> is never
  zero; on the empty sequence it returns \<open>(1, 0)\<close>.
\<close>

theorem calcAvgLineWidth_linesNeeded_positive:
  "1 \<le> fst (calcAvgLineWidth words s m)
   \<and> 1 \<le> snd (snd (calcAvgLineWidth_loop words s m))
   \<and> real (snd (snd (calcAvgLineWidth_loop words s m))) \<noteq> 0
   \<and> calcAvgLineWidth [] s m = (1, 0)"
proof -
  have "1 \<le> snd (snd (calcAvgLineWidth_loop words s m))"
    by (rule calcAvgLineWidth_loop_lines)
  moreover have "calcAvgLineWidth [] s m = (1, 0)"
    by (simp add: calcAvgLineWidth_def calcAvgLineWidth_loop_def)
  ultimately show ?thesis by (simp add: calcAvgLineWidth_fst)
qed

end
